theory Spec2Isabelle
  imports Complex_Main
begin

unbundle bit_operations_syntax

section \<open>Common Python notions\<close>

text \<open>
  Exceptions are values: every operation of the source that can raise returns
  \<open>py_error + 'a\<close>, with \<open>Inl\<close> carrying the exception.
\<close>

datatype py_error = IndexError | ValueError | TypeError | OverflowError

text \<open>\<open>xs[i]\<close> for a non-negative index: raises IndexError out of range.\<close>

definition getitem :: "'a list \<Rightarrow> nat \<Rightarrow> py_error + 'a" where
  "getitem xs i = (if i < length xs then Inr (xs ! i) else Inl IndexError)"

text \<open>\<open>range(0, n, step)\<close> as the list of its values.\<close>

definition range_step :: "nat \<Rightarrow> nat \<Rightarrow> nat list" where
  "range_step n step = map (\<lambda>k. k * step) [0..<(n + step - 1) div step]"

section \<open>Transmitter side (badge\_co2.py): configuration and canvas\<close>

record display_config =
  width :: nat
  height :: nat
  cols :: nat
  rows :: nat
  icon_size :: nat

definition DISPLAY_CONFIG :: display_config where
  "DISPLAY_CONFIG = \<lparr>width = 296, height = 128, cols = 2, rows = 4, icon_size = 24\<rparr>"

text \<open>
  A PIL image of mode "1": its size and one value per pixel, 0 for black and a
  non-zero value for white. \<open>pix img x y\<close> is the pixel in column \<open>x\<close> of row \<open>y\<close>.
\<close>

record image =
  iw :: nat
  ih :: nat
  pix :: "nat \<Rightarrow> nat \<Rightarrow> nat"

text \<open>\<open>Image.new("1", (w, h), color)\<close>.\<close>

definition new_image :: "nat \<Rightarrow> nat \<Rightarrow> nat \<Rightarrow> image" where
  "new_image w h color = \<lparr>iw = w, ih = h, pix = (\<lambda>x y. color)\<rparr>"

text \<open>\<open>list(img.get_flattened_data())\<close>: the pixels row by row.\<close>

definition get_flattened_data :: "image \<Rightarrow> nat list" where
  "get_flattened_data img = map (\<lambda>i. pix img (i mod iw img) (i div iw img)) [0..<iw img * ih img]"

section \<open>Bitmap packer (image\_to\_badge\_bytes)\<close>

text \<open>The loop \<open>for bit in range(8)\<close> that builds one byte.\<close>

fun pack_bits :: "nat list \<Rightarrow> nat \<Rightarrow> nat \<Rightarrow> nat \<Rightarrow> nat list \<Rightarrow> nat \<Rightarrow> py_error + nat" where
  "pack_bits pixels w y x [] byte = Inr byte"
| "pack_bits pixels w y x (b # bs) byte =
    (let px = x + b in
     if px < w then
       (case getitem pixels (y * w + px) of
          Inl e \<Rightarrow> Inl e
        | Inr p \<Rightarrow> pack_bits pixels w y x bs (if p \<noteq> 0 then byte OR push_bit (7 - b) 1 else byte))
     else pack_bits pixels w y x bs byte)"

text \<open>\<open>bytearray.append\<close> accepts only values in \<open>range(256)\<close>.\<close>

definition bytearray_append :: "nat list \<Rightarrow> nat \<Rightarrow> py_error + nat list" where
  "bytearray_append byte_data byte =
     (if byte < 256 then Inr (byte_data @ [byte]) else Inl ValueError)"

text \<open>The loop \<open>for x in range(0, width, 8)\<close> over one row.\<close>

fun pack_row :: "nat list \<Rightarrow> nat \<Rightarrow> nat \<Rightarrow> nat list \<Rightarrow> nat list \<Rightarrow> py_error + nat list" where
  "pack_row pixels w y [] byte_data = Inr byte_data"
| "pack_row pixels w y (x # xs) byte_data =
    (case pack_bits pixels w y x [0..<8] 0 of
       Inl e \<Rightarrow> Inl e
     | Inr byte \<Rightarrow>
        (case bytearray_append byte_data byte of
           Inl e \<Rightarrow> Inl e
         | Inr byte_data' \<Rightarrow> pack_row pixels w y xs byte_data'))"

text \<open>The loop \<open>for y in range(height)\<close>.\<close>

fun pack_rows :: "nat list \<Rightarrow> nat \<Rightarrow> nat list \<Rightarrow> nat list \<Rightarrow> py_error + nat list" where
  "pack_rows pixels w [] byte_data = Inr byte_data"
| "pack_rows pixels w (y # ys) byte_data =
    (case pack_row pixels w y (range_step w 8) byte_data of
       Inl e \<Rightarrow> Inl e
     | Inr byte_data' \<Rightarrow> pack_rows pixels w ys byte_data')"

text \<open>
  The packer. The image is already of mode "1", so \<open>img.convert("1")\<close> copies it.
  Width and height are read from the configuration, not from the image.
\<close>

definition image_to_badge_bytes :: "display_config \<Rightarrow> image \<Rightarrow> py_error + nat list" where
  "image_to_badge_bytes cfg img =
     pack_rows (get_flattened_data img) (width cfg) [0..<height cfg] []"

section \<open>Receiver side (badge\_main.py): the display and the paint routine\<close>

definition WIDTH :: nat where "WIDTH = 296"
definition HEIGHT :: nat where "HEIGHT = 128"
definition FULL_REFRESH_INTERVAL :: nat where "FULL_REFRESH_INTERVAL = 60"

datatype update_speed = UPDATE_NORMAL | UPDATE_FAST

text \<open>
  The display object: the current pen and font, the update speed, the frame
  buffer \<open>fb\<close> that drawing calls write (\<open>fb d x y\<close> is the pen value of the pixel),
  the text calls \<open>texts\<close> drawn into the frame buffer since the last \<open>clear()\<close>
  (string, x, y, scale; the glyphs are not rasterised), the picture \<open>panel\<close> and
  \<open>panel_texts\<close> that the e-paper shows since the last \<open>update()\<close>, and the speed
  of every \<open>update()\<close> performed so far, oldest first.
\<close>

record display =
  pen :: nat
  font :: string
  speed :: update_speed
  fb :: "nat \<Rightarrow> nat \<Rightarrow> nat"
  texts :: "(string \<times> nat \<times> nat \<times> nat) list"
  panel :: "nat \<Rightarrow> nat \<Rightarrow> nat"
  panel_texts :: "(string \<times> nat \<times> nat \<times> nat) list"
  refreshes :: "update_speed list"

definition set_pen :: "nat \<Rightarrow> display \<Rightarrow> display" where
  "set_pen p d = d\<lparr>pen := p\<rparr>"

definition set_font :: "string \<Rightarrow> display \<Rightarrow> display" where
  "set_font f d = d\<lparr>font := f\<rparr>"

definition set_update_speed :: "update_speed \<Rightarrow> display \<Rightarrow> display" where
  "set_update_speed s d = d\<lparr>speed := s\<rparr>"

definition clear :: "display \<Rightarrow> display" where
  "clear d = d\<lparr>fb := (\<lambda>x y. pen d), texts := []\<rparr>"

text \<open>\<open>display.text(s, x, y, scale=scale)\<close>.\<close>

definition text_at :: "string \<Rightarrow> nat \<Rightarrow> nat \<Rightarrow> nat \<Rightarrow> display \<Rightarrow> display" where
  "text_at s x y scale d = d\<lparr>texts := texts d @ [(s, x, y, scale)]\<rparr>"

text \<open>
  \<open>display.pixel(px, y)\<close>. A write outside the panel is returned as an error, so
  that its absence is a theorem about the caller.
\<close>

definition pixel :: "nat \<Rightarrow> nat \<Rightarrow> display \<Rightarrow> py_error + display" where
  "pixel px y d =
     (if px < WIDTH \<and> y < HEIGHT
      then Inr (d\<lparr>fb := (\<lambda>x' y'. if x' = px \<and> y' = y then pen d else fb d x' y')\<rparr>)
      else Inl IndexError)"

definition update :: "display \<Rightarrow> display" where
  "update d = d\<lparr>panel := fb d, panel_texts := texts d, refreshes := refreshes d @ [speed d]\<rparr>"

text \<open>The loop \<open>for bit in range(8)\<close> of \<open>display_image\<close>.\<close>

fun paint_bits :: "nat \<Rightarrow> nat \<Rightarrow> nat \<Rightarrow> nat list \<Rightarrow> display \<Rightarrow> py_error + display" where
  "paint_bits byte x y [] d = Inr d"
| "paint_bits byte x y (b # bs) d =
    (let px = x + b in
     if px < WIDTH then
       (if byte AND push_bit (7 - b) 1 = 0 then
          (case pixel px y (set_pen 0 d) of
             Inl e \<Rightarrow> Inl e
           | Inr d' \<Rightarrow> paint_bits byte x y bs d')
        else paint_bits byte x y bs d)
     else paint_bits byte x y bs d)"

text \<open>The loop \<open>for x in range(0, WIDTH, 8)\<close>; it threads the display and \<open>byte_idx\<close>.\<close>

fun paint_row :: "nat list \<Rightarrow> nat \<Rightarrow> nat list \<Rightarrow> display \<times> nat \<Rightarrow> py_error + display \<times> nat" where
  "paint_row img_bytes y [] (d, byte_idx) = Inr (d, byte_idx)"
| "paint_row img_bytes y (x # xs) (d, byte_idx) =
    (if byte_idx < length img_bytes then
       (case getitem img_bytes byte_idx of
          Inl e \<Rightarrow> Inl e
        | Inr byte \<Rightarrow>
           (case paint_bits byte x y [0..<8] d of
              Inl e \<Rightarrow> Inl e
            | Inr d' \<Rightarrow> paint_row img_bytes y xs (d', byte_idx + 1)))
     else paint_row img_bytes y xs (d, byte_idx))"

text \<open>The loop \<open>for y in range(HEIGHT)\<close>.\<close>

fun paint_rows :: "nat list \<Rightarrow> nat list \<Rightarrow> display \<times> nat \<Rightarrow> py_error + display \<times> nat" where
  "paint_rows img_bytes [] s = Inr s"
| "paint_rows img_bytes (y # ys) s =
    (case paint_row img_bytes y (range_step WIDTH 8) s of
       Inl e \<Rightarrow> Inl e
     | Inr s' \<Rightarrow> paint_rows img_bytes ys s')"

text \<open>
  The receiver's globals that \<open>display_image\<close> reads and writes: the display and
  \<open>update_count\<close>.
\<close>

record painter =
  dsp :: display
  update_count :: nat

definition display_image :: "nat list \<Rightarrow> painter \<Rightarrow> py_error + painter" where
  "display_image img_bytes st =
     (let d = set_pen 0 (clear (set_pen 15 (dsp st))) in
      case paint_rows img_bytes [0..<HEIGHT] (d, 0) of
        Inl e \<Rightarrow> Inl e
      | Inr (d', byte_idx) \<Rightarrow>
         (let n = update_count st + 1 in
          if n \<ge> FULL_REFRESH_INTERVAL
          then Inr \<lparr>dsp = set_update_speed UPDATE_FAST (update (set_update_speed UPDATE_NORMAL d')),
                    update_count = 0\<rparr>
          else Inr \<lparr>dsp = update d', update_count = n\<rparr>))"

text \<open>
  The display object as \<open>badger2040.Badger2040()\<close> returns it. The source does not fix
  what a fresh object holds; a white frame buffer and panel, pen 0 and the normal
  update speed are taken here.
\<close>

definition fresh_display :: display where
  "fresh_display = \<lparr>pen = 0, font = [], speed = UPDATE_NORMAL, fb = (\<lambda>x y. 15), texts = [],
     panel = (\<lambda>x y. 15), panel_texts = [], refreshes = []\<rparr>"

definition show_waiting_screen :: "display \<Rightarrow> display" where
  "show_waiting_screen d =
     update (text_at ''Waiting for data...'' 10 55 2
       (set_font ''bitmap8'' (set_pen 0 (clear (set_pen 15 d)))))"

text \<open>
  The module's start: the display is created, set to fast updates, the waiting
  screen is shown and \<open>update_count\<close> is 0.
\<close>

definition startup :: painter where
  "startup = \<lparr>dsp = show_waiting_screen (set_update_speed UPDATE_FAST fresh_display),
     update_count = 0\<rparr>"

section \<open>The serial link: base64 and framing\<close>

text \<open>
  \<open>base64.b64encode\<close> and \<open>binascii.a2b_base64\<close> are library functions, not code of
  the repository. The encoder follows RFC 4648 (standard alphabet, \<open>=\<close> padding, no line
  breaks). The decoder follows the loop of MicroPython's \<open>a2b_base64\<close>, which runs on
  the badge: characters outside the alphabet are skipped, the bits are collected in a
  32-bit shift register, decoding stops at the padding that completes a group, and
  left-over bits raise ValueError ("incorrect padding").
\<close>

definition b64_table :: string where
  "b64_table = ''ABCDEFGHIJKLMNOPQRSTUVWXYZabcdefghijklmnopqrstuvwxyz0123456789+/''"

definition b64char :: "nat \<Rightarrow> char" where
  "b64char n = b64_table ! n"

fun b64encode :: "nat list \<Rightarrow> string" where
  "b64encode [] = []"
| "b64encode [a] =
     [b64char (a div 4), b64char (a mod 4 * 16), CHR ''='', CHR ''='']"
| "b64encode [a, b] =
     [b64char (a div 4), b64char (a mod 4 * 16 + b div 16), b64char (b mod 16 * 4), CHR ''='']"
| "b64encode (a # b # c # rest) =
     [b64char (a div 4), b64char (a mod 4 * 16 + b div 16),
      b64char (b mod 16 * 4 + c div 64), b64char (c mod 64)] @ b64encode rest"

definition sextet :: "char \<Rightarrow> nat option" where
  "sextet ch =
     (let n = (of_char ch :: nat) in
      if 65 \<le> n \<and> n \<le> 90 then Some (n - 65)
      else if 97 \<le> n \<and> n \<le> 122 then Some (n - 97 + 26)
      else if 48 \<le> n \<and> n \<le> 57 then Some (n - 48 + 52)
      else if ch = CHR ''+'' then Some 62
      else if ch = CHR ''/'' then Some 63
      else None)"

text \<open>\<open>shift = (shift << 6) | sextet\<close> on a 32-bit unsigned register.\<close>

definition shift_in :: "nat \<Rightarrow> nat \<Rightarrow> nat" where
  "shift_in shift s = (shift * 64 + s) mod 2 ^ 32"

text \<open>
  The decoder's loop over the characters; it returns the final \<open>nbits\<close> and the bytes
  written. \<open>(shift >> nbits) & 0xFF\<close> is \<open>shift div 2 ^ nbits mod 256\<close>.
\<close>

function a2b_loop :: "string \<Rightarrow> nat \<Rightarrow> nat \<Rightarrow> bool \<Rightarrow> nat list \<Rightarrow> nat \<times> nat list" where
  "a2b_loop [] shift nbits hadpad out = (nbits, out)"
| "a2b_loop (ch # rest) shift nbits hadpad out =
    (if ch = CHR ''='' \<and> (nbits = 2 \<or> (nbits = 4 \<and> hadpad)) then (0, out)
     else
       (let hadpad = (if ch = CHR ''='' then True else hadpad) in
        case sextet ch of
          None \<Rightarrow> a2b_loop rest shift nbits hadpad out
        | Some s \<Rightarrow>
           (let shift = shift_in shift s; nbits = nbits + 6 in
            if nbits \<ge> 8
            then a2b_loop rest shift (nbits - 8) False (out @ [shift div 2 ^ (nbits - 8) mod 256])
            else a2b_loop rest shift nbits False out)))"
  by pat_completeness auto
termination
  by (relation "measure (\<lambda>(data, shift, nbits, hadpad, out). length data)") auto

definition a2b_base64 :: "string \<Rightarrow> py_error + nat list" where
  "a2b_base64 data =
     (case a2b_loop data 0 0 False [] of
        (nbits, out) \<Rightarrow> if nbits \<noteq> 0 then Inl ValueError else Inr out)"

subsection \<open>Transmitter (send\_image\_to\_badge)\<close>

definition newline :: char where
  "newline = CHR 0x0A"

text \<open>
  The serial port is the string of characters written to it so far. The three writes
  that follow the packing, for packed bytes \<open>img_bytes\<close>:
\<close>

definition send_bytes :: "string \<Rightarrow> nat list \<Rightarrow> string" where
  "send_bytes ser img_bytes = ((ser @ ''IMG:'') @ b64encode img_bytes) @ [newline]"

definition send_image_to_badge :: "display_config \<Rightarrow> string \<Rightarrow> image \<Rightarrow> py_error + string" where
  "send_image_to_badge cfg ser img =
     (case image_to_badge_bytes cfg img of
        Inl e \<Rightarrow> Inl e
      | Inr img_bytes \<Rightarrow> Inr (send_bytes ser img_bytes))"

subsection \<open>Receiver (the read loop of badge\_main.py)\<close>

text \<open>The characters that \<open>str.strip()\<close> removes: space and \<open>\t \n \v \f \r\<close>.\<close>

definition isspace :: "char \<Rightarrow> bool" where
  "isspace c = (c = CHR '' '' \<or> (9 \<le> (of_char c :: nat) \<and> (of_char c :: nat) \<le> 13))"

definition strip :: "string \<Rightarrow> string" where
  "strip s = rev (dropWhile isspace (rev (dropWhile isspace s)))"

definition startswith :: "string \<Rightarrow> string \<Rightarrow> bool" where
  "startswith s p = (take (length p) s = p)"

text \<open>\<open>s.split(sep)\<close> for a separator of one character.\<close>

fun split_on :: "char \<Rightarrow> string \<Rightarrow> string list" where
  "split_on sep [] = [[]]"
| "split_on sep (c # cs) =
    (if c = sep then [] # split_on sep cs
     else (case split_on sep cs of
             [] \<Rightarrow> [[c]]
           | p # ps \<Rightarrow> (c # p) # ps))"

text \<open>What the loop prints.\<close>

datatype printed = Image_displayed | Error py_error

text \<open>
  The receiver's globals: those of the paint routine, the line buffer, and the lines
  printed so far.
\<close>

record receiver =
  pnt :: painter
  buffer :: string
  printed_lines :: "printed list"

text \<open>
  The body of \<open>if char == "\n"\<close>. An exception of the IMG branch is caught and
  printed; \<open>display_image\<close> returns no state with an exception, and the branch that
  would need it keeps the globals of before the call (the routine raises nothing, see
  lemma \<open>display_image_total\<close>). An exception of the CO2 branch would leave the loop.
\<close>

definition on_newline :: "receiver \<Rightarrow> py_error + receiver" where
  "on_newline r0 =
     (let line = strip (buffer r0);
          r = r0\<lparr>buffer := []\<rparr>
      in if startswith line ''IMG:'' then
           (case a2b_base64 (drop 4 line) of
              Inl e \<Rightarrow> Inr (r\<lparr>printed_lines := printed_lines r @ [Error e]\<rparr>)
            | Inr img_bytes \<Rightarrow>
               (case display_image img_bytes (pnt r) of
                  Inl e \<Rightarrow> Inr (r\<lparr>printed_lines := printed_lines r @ [Error e]\<rparr>)
                | Inr p \<Rightarrow> Inr (r\<lparr>pnt := p, printed_lines := printed_lines r @ [Image_displayed]\<rparr>)))
         else if startswith line ''CO2:'' then
           (case getitem (split_on CHR '':'' line) 1 of
              Inl e \<Rightarrow> Inl e
            | Inr co2_level \<Rightarrow>
               Inr (r\<lparr>pnt := (pnt r)\<lparr>dsp :=
                      update (text_at ''ppm'' 30 90 2 (text_at co2_level 30 50 4
                        (text_at ''Room CO2 Level'' 10 10 2 (set_font ''bitmap8''
                          (set_pen 0 (clear (set_pen 15 (dsp (pnt r)))))))))\<rparr>\<rparr>))
         else Inr r)"

text \<open>One turn of the loop that has read the character \<open>char\<close>.\<close>

definition on_char :: "char \<Rightarrow> receiver \<Rightarrow> py_error + receiver" where
  "on_char char r =
     (if char = newline then on_newline r
      else Inr (r\<lparr>buffer := buffer r @ [char]\<rparr>))"

text \<open>The loop over the characters that arrive, until an exception leaves it.\<close>

fun receive :: "string \<Rightarrow> receiver \<Rightarrow> py_error + receiver" where
  "receive [] r = Inr r"
| "receive (char # chars) r =
    (case on_char char r of
       Inl e \<Rightarrow> Inl e
     | Inr r' \<Rightarrow> receive chars r')"

text \<open>The receiver when the loop starts.\<close>

definition receiver_start :: receiver where
  "receiver_start = \<lparr>pnt = startup, buffer = [], printed_lines = []\<rparr>"

section \<open>Python floats: parsing and formatting\<close>

text \<open>
  A Python float: a finite value (the exact value of the double, a rational), negative
  zero, the infinities and NaN.
\<close>

datatype pyfloat = Fin rat | NegZero | PInf | NInf | NaN

definition is_digit :: "char \<Rightarrow> bool" where
  "is_digit c = (48 \<le> (of_char c :: nat) \<and> (of_char c :: nat) \<le> 57)"

definition digit_val :: "char \<Rightarrow> nat" where
  "digit_val c = of_char c - 48"

definition digits_val :: "string \<Rightarrow> nat" where
  "digits_val ds = foldl (\<lambda>a c. 10 * a + digit_val c) 0 ds"

definition lower :: "char \<Rightarrow> char" where
  "lower c = (if 65 \<le> (of_char c :: nat) \<and> (of_char c :: nat) \<le> 90
              then char_of ((of_char c :: nat) + 32) else c)"

subsection \<open>Rounding a rational to the nearest double\<close>

fun bit_length :: "nat \<Rightarrow> nat" where
  "bit_length n = (if n = 0 then 0 else Suc (bit_length (n div 2)))"

definition pow2 :: "int \<Rightarrow> rat" where
  "pow2 e = (if 0 \<le> e then 2 ^ nat e else 1 / 2 ^ nat (- e))"

definition pow10 :: "int \<Rightarrow> rat" where
  "pow10 e = (if 0 \<le> e then 10 ^ nat e else 1 / 10 ^ nat (- e))"

text \<open>For \<open>a > 0\<close>, the \<open>e\<close> with \<open>2 ^ e \<le> a < 2 ^ (e + 1)\<close>.\<close>

definition ilog2 :: "rat \<Rightarrow> int" where
  "ilog2 a = (if 1 \<le> a then int (bit_length (nat \<lfloor>a\<rfloor>)) - 1
              else - int (bit_length (nat (\<lceil>1 / a\<rceil> - 1))))"

definition round_half_even :: "rat \<Rightarrow> int" where
  "round_half_even q =
     (let f = \<lfloor>q\<rfloor>; d = q - of_int f
      in if d < 1 / 2 then f else if 1 / 2 < d then f + 1 else if even f then f else f + 1)"

definition signed_zero :: "bool \<Rightarrow> pyfloat" where
  "signed_zero neg = (if neg then NegZero else Fin 0)"

text \<open>
  The double nearest to \<open>\<plusminus>a\<close> for a magnitude \<open>a \<ge> 0\<close> (IEEE 754 binary64, ties to
  even): 53 significant bits, exponents down to the subnormals, infinity from
  \<open>2 ^ 1024\<close> on.
\<close>

definition round_double :: "bool \<Rightarrow> rat \<Rightarrow> pyfloat" where
  "round_double neg a =
     (if a = 0 then signed_zero neg
      else
        (let e = max (ilog2 a) (- 1022);
             u = pow2 (e - 52);
             r = of_int (round_half_even (a / u)) * u
         in if pow2 1024 \<le> r then (if neg then NInf else PInf)
            else if r = 0 then signed_zero neg
            else Fin (if neg then - r else r)))"

subsection \<open>float(str)\<close>

text \<open>
  \<open>float\<close> of a string of ASCII characters, as CPython parses it: white space is
  stripped at both ends, underscores may stand between digits, then an optional sign and
  either \<open>inf\<close>, \<open>infinity\<close> or \<open>nan\<close> in any case, or a decimal number with an
  optional exponent. Anything else raises ValueError.
\<close>

definition float_space :: "char \<Rightarrow> bool" where
  "float_space c = (c = CHR '' '' \<or> (9 \<le> (of_char c :: nat) \<and> (of_char c :: nat) \<le> 13))"

definition float_strip :: "string \<Rightarrow> string" where
  "float_strip s = rev (dropWhile float_space (rev (dropWhile float_space s)))"

fun strip_underscores :: "char \<Rightarrow> string \<Rightarrow> string option" where
  "strip_underscores prev [] = (if prev = CHR ''_'' then None else Some [])"
| "strip_underscores prev (p # ps) =
    (if p = CHR ''_'' then (if is_digit prev then strip_underscores p ps else None)
     else if prev = CHR ''_'' \<and> \<not> is_digit p then None
     else map_option ((#) p) (strip_underscores p ps))"

text \<open>The exponent part: empty, or \<open>e\<close> or \<open>E\<close>, an optional sign and digits.\<close>

definition parse_exponent :: "string \<Rightarrow> int option" where
  "parse_exponent s =
     (case s of
        [] \<Rightarrow> Some 0
      | c # r \<Rightarrow>
         if c = CHR ''e'' \<or> c = CHR ''E'' then
           (let (neg, ds) = (case r of
                               [] \<Rightarrow> (False, [])
                             | x # r' \<Rightarrow> if x = CHR ''-'' then (True, r')
                                        else if x = CHR ''+'' then (False, r') else (False, r))
            in if ds \<noteq> [] \<and> list_all is_digit ds
               then Some (if neg then - int (digits_val ds) else int (digits_val ds))
               else None)
         else None)"

text \<open>
  A decimal number without sign: its digits as a natural number, the number of digits
  after the point, and the exponent.
\<close>

definition parse_decimal :: "string \<Rightarrow> (nat \<times> nat \<times> int) option" where
  "parse_decimal s =
     (let ip = takeWhile is_digit s;
          r1 = dropWhile is_digit s;
          fp = (case r1 of [] \<Rightarrow> [] | c # r \<Rightarrow> if c = CHR ''.'' then takeWhile is_digit r else []);
          r2 = (case r1 of [] \<Rightarrow> [] | c # r \<Rightarrow> if c = CHR ''.'' then dropWhile is_digit r else r1)
      in if ip = [] \<and> fp = [] then None
         else (case parse_exponent r2 of
                 None \<Rightarrow> None
               | Some e \<Rightarrow> Some (digits_val (ip @ fp), length fp, e)))"

definition parse_float :: "string \<Rightarrow> pyfloat option" where
  "parse_float x =
     (case strip_underscores (CHR 0x00) (float_strip x) of
        None \<Rightarrow> None
      | Some s \<Rightarrow>
         (let (neg, body) = (case s of
                               [] \<Rightarrow> (False, [])
                             | c # r \<Rightarrow> if c = CHR ''-'' then (True, r)
                                       else if c = CHR ''+'' then (False, r) else (False, s));
              name = map lower body
          in if name = ''inf'' \<or> name = ''infinity'' then Some (if neg then NInf else PInf)
             else if name = ''nan'' then Some NaN
             else (case parse_decimal body of
                     None \<Rightarrow> None
                   | Some (m, f, e) \<Rightarrow> Some (round_double neg (of_nat m * pow10 (e - int f))))))"

text \<open>\<open>float(x)\<close> for a string \<open>x\<close>: the parsed float, or ValueError.\<close>

definition py_float :: "string \<Rightarrow> py_error + pyfloat" where
  "py_float x = (case parse_float x of None \<Rightarrow> Inl ValueError | Some v \<Rightarrow> Inr v)"

subsection \<open>int(float) and the format specifications\<close>

text \<open>\<open>int(val)\<close>: truncation towards zero; NaN raises ValueError, an infinity OverflowError.\<close>

definition py_int :: "pyfloat \<Rightarrow> py_error + int" where
  "py_int val =
     (case val of
        Fin q \<Rightarrow> Inr (if 0 \<le> q then \<lfloor>q\<rfloor> else \<lceil>q\<rceil>)
      | NegZero \<Rightarrow> Inr 0
      | PInf \<Rightarrow> Inl OverflowError
      | NInf \<Rightarrow> Inl OverflowError
      | NaN \<Rightarrow> Inl ValueError)"

definition digit_char :: "nat \<Rightarrow> char" where
  "digit_char n = ''0123456789'' ! n"

fun str_nat :: "nat \<Rightarrow> string" where
  "str_nat n = (if n < 10 then [digit_char n] else str_nat (n div 10) @ [digit_char (n mod 10)])"

definition str_int :: "int \<Rightarrow> string" where
  "str_int i = (if i < 0 then CHR ''-'' # str_nat (nat (- i)) else str_nat (nat i))"

text \<open>
  \<open>f"{val:.0f}"\<close> and \<open>f"{val:.1f}"\<close>: the exact value rounded to that many decimals,
  ties to even; the sign of a negative value stays when it rounds to zero.
\<close>

definition format_fixed :: "nat \<Rightarrow> pyfloat \<Rightarrow> string" where
  "format_fixed p val =
     (case val of
        NaN \<Rightarrow> ''nan''
      | PInf \<Rightarrow> ''inf''
      | NInf \<Rightarrow> ''-inf''
      | NegZero \<Rightarrow> (if p = 0 then ''-0'' else ''-0.'' @ replicate p CHR ''0'')
      | Fin q \<Rightarrow>
         (let n = nat (round_half_even (\<bar>q\<bar> * 10 ^ p));
              ip = str_nat (n div 10 ^ p);
              fp = str_nat (n mod 10 ^ p);
              body = (if p = 0 then ip else ip @ ''.'' @ replicate (p - length fp) CHR ''0'' @ fp)
          in if q < 0 then CHR ''-'' # body else body))"

section \<open>Threshold evaluator and value formatter (badge\_co2.py)\<close>

text \<open>\<open>val >= t\<close> for a float and a threshold of the configuration (a number).\<close>

definition float_ge :: "pyfloat \<Rightarrow> rat \<Rightarrow> bool" where
  "float_ge val t =
     (case val of Fin q \<Rightarrow> t \<le> q | NegZero \<Rightarrow> t \<le> 0 | PInf \<Rightarrow> True | NInf \<Rightarrow> False
      | NaN \<Rightarrow> False)"

text \<open>
  The warning level: 0 = none, 1 = warning, 2 = danger. The value is a string of the
  sensor snapshot; the thresholds are \<open>None\<close> or a list of numbers. Only ValueError and
  TypeError are caught.
\<close>

definition get_warning_level :: "string \<Rightarrow> rat list option \<Rightarrow> py_error + nat" where
  "get_warning_level val thresholds =
     (case thresholds of
        None \<Rightarrow> Inr 0
      | Some ts \<Rightarrow>
         if ts = [] then Inr 0
         else (case py_float val of
                 Inl e \<Rightarrow> if e = ValueError \<or> e = TypeError then Inr 0 else Inl e
               | Inr v \<Rightarrow>
                  (case getitem ts 1 of
                     Inl e \<Rightarrow> if e = ValueError \<or> e = TypeError then Inr 0 else Inl e
                   | Inr danger \<Rightarrow>
                      if float_ge v danger then Inr 2
                      else (case getitem ts 0 of
                              Inl e \<Rightarrow> if e = ValueError \<or> e = TypeError then Inr 0 else Inl e
                            | Inr warning \<Rightarrow> if float_ge v warning then Inr 1 else Inr 0))))"

text \<open>
  The formatter. \<open>float_str\<close> stands for \<open>str\<close> of a float (the shortest text that reads
  back as the same double), which only the last branch, for an unknown format, uses.
\<close>

definition format_value :: "(pyfloat \<Rightarrow> string) \<Rightarrow> string \<Rightarrow> string \<Rightarrow> string \<Rightarrow> py_error + string" where
  "format_value float_str val fmt suffix =
     (if fmt = ''raw'' then Inr (val @ suffix)
      else
        (case (case py_float val of
                 Inl e \<Rightarrow> Inl e
               | Inr v \<Rightarrow>
                  if fmt = ''int'' then
                    (case py_int v of Inl e \<Rightarrow> Inl e | Inr i \<Rightarrow> Inr (str_int i @ suffix))
                  else if fmt = ''0f'' then Inr (format_fixed 0 v @ suffix)
                  else if fmt = ''1f'' then Inr (format_fixed 1 v @ suffix)
                  else Inr (float_str v @ suffix))
         of Inl e \<Rightarrow> if e = ValueError \<or> e = TypeError then Inr (val @ suffix) else Inl e
          | Inr s \<Rightarrow> Inr s))"

section \<open>Grid layout engine (badge\_co2.py)\<close>

text \<open>
  A cell of \<open>GRID_CONFIG\<close>: a dictionary with the keys \<open>row\<close> and \<open>col\<close> and the optional
  keys that \<open>draw_cell\<close> reads with \<open>get\<close> (\<open>None\<close> when the key is absent). The fields
  carry the prefix \<open>cell_\<close>.
\<close>

record cell_config =
  cell_row :: nat
  cell_col :: nat
  cell_sensor :: "string option"
  cell_icon :: "string option"
  cell_format :: "string option"
  cell_suffix :: "string option"
  cell_thresholds :: "rat list option"
  cell_icon_y_offset :: "int option"

definition GRID_CONFIG :: "cell_config list" where
  "GRID_CONFIG =
    [\<lparr>cell_row = 0, cell_col = 0, cell_sensor = Some ''co2'', cell_icon = Some ''seedlings.png'', cell_format = Some ''int'',
      cell_suffix = None, cell_thresholds = Some [1000, 2000], cell_icon_y_offset = None\<rparr>,
     \<lparr>cell_row = 0, cell_col = 1, cell_sensor = Some ''co'', cell_icon = Some ''fire.png'', cell_format = Some ''1f'',
      cell_suffix = None, cell_thresholds = Some [10, 35], cell_icon_y_offset = None\<rparr>,
     \<lparr>cell_row = 1, cell_col = 0, cell_sensor = Some ''pm25'', cell_icon = Some ''sparkles.png'', cell_format = Some ''1f'',
      cell_suffix = None, cell_thresholds = Some [12, 35], cell_icon_y_offset = None\<rparr>,
     \<lparr>cell_row = 1, cell_col = 1, cell_sensor = Some ''humidity'', cell_icon = Some ''cloud-download.png'',
      cell_format = Some ''0f'', cell_suffix = Some ''%'', cell_thresholds = None, cell_icon_y_offset = None\<rparr>,
     \<lparr>cell_row = 2, cell_col = 0, cell_sensor = Some ''outside_temp'', cell_icon = Some ''sun.png'', cell_format = Some ''1f'',
      cell_suffix = Some [CHR 0xC2, CHR 0xB0, CHR ''C''], cell_thresholds = None, cell_icon_y_offset = None\<rparr>,
     \<lparr>cell_row = 2, cell_col = 1, cell_sensor = Some ''temperature'', cell_icon = Some ''home.png'', cell_format = Some ''1f'',
      cell_suffix = Some [CHR 0xC2, CHR 0xB0, CHR ''C''], cell_thresholds = None, cell_icon_y_offset = None\<rparr>,
     \<lparr>cell_row = 3, cell_col = 0, cell_sensor = Some ''time'', cell_icon = Some ''clock.png'', cell_format = Some ''raw'',
      cell_suffix = None, cell_thresholds = None, cell_icon_y_offset = None\<rparr>,
     \<lparr>cell_row = 3, cell_col = 1, cell_sensor = Some ''date'', cell_icon = Some ''calender.png'', cell_format = Some ''raw'',
      cell_suffix = None, cell_thresholds = None, cell_icon_y_offset = None\<rparr>]"

text \<open>
  What the drawing needs from outside the repository's code: the icon files as
  \<open>load_icon\<close> reads and converts them (name, size, inverted; \<open>None\<close> when loading
  fails), the rasteriser of \<open>draw.text\<close> for the loaded font (position, text, colour),
  and \<open>str\<close> of a float.
\<close>

record environment =
  env_load_icon :: "string \<Rightarrow> nat \<Rightarrow> bool \<Rightarrow> image option"
  env_draw_text :: "nat \<times> nat \<Rightarrow> string \<Rightarrow> nat \<Rightarrow> image \<Rightarrow> image"
  env_float_str :: "pyfloat \<Rightarrow> string"

text \<open>
  \<open>draw.rectangle([x0, y0, x1, y1], fill=v)\<close>: the box includes both corners. Pixels
  outside the image are clipped; a box with \<open>x1 < x0\<close> or \<open>y1 < y0\<close> raises ValueError.
\<close>

definition rectangle_fill :: "int \<Rightarrow> int \<Rightarrow> int \<Rightarrow> int \<Rightarrow> nat \<Rightarrow> image \<Rightarrow> py_error + image" where
  "rectangle_fill x0 y0 x1 y1 v img =
     (if x1 < x0 \<or> y1 < y0 then Inl ValueError
      else Inr (img\<lparr>pix := (\<lambda>x y.
             if x < iw img \<and> y < ih img \<and> x0 \<le> int x \<and> int x \<le> x1 \<and> y0 \<le> int y \<and> int y \<le> y1
             then v else pix img x y)\<rparr>))"

text \<open>
  \<open>draw.rectangle([x0, y0, x1, y1], outline=v, width=k)\<close>: the \<open>k\<close> outermost rings of
  the box.
\<close>

definition rectangle_outline :: "int \<Rightarrow> int \<Rightarrow> int \<Rightarrow> int \<Rightarrow> nat \<Rightarrow> int \<Rightarrow> image \<Rightarrow> py_error + image" where
  "rectangle_outline x0 y0 x1 y1 v k img =
     (if x1 < x0 \<or> y1 < y0 then Inl ValueError
      else Inr (img\<lparr>pix := (\<lambda>x y.
             if x < iw img \<and> y < ih img \<and> x0 \<le> int x \<and> int x \<le> x1 \<and> y0 \<le> int y \<and> int y \<le> y1
                \<and> (int x < x0 + k \<or> x1 - k < int x \<or> int y < y0 + k \<or> y1 - k < int y)
             then v else pix img x y)\<rparr>))"

text \<open>\<open>img.paste(icon, (ox, oy))\<close>: the icon's pixels, clipped to the image.\<close>

definition paste :: "image \<Rightarrow> int \<Rightarrow> int \<Rightarrow> image \<Rightarrow> image" where
  "paste ic ox oy img =
     img\<lparr>pix := (\<lambda>x y.
        if x < iw img \<and> y < ih img \<and> ox \<le> int x \<and> int x < ox + int (iw ic)
           \<and> oy \<le> int y \<and> int y < oy + int (ih ic)
        then pix ic (nat (int x - ox)) (nat (int y - oy)) else pix img x y)\<rparr>"

definition draw_cell ::
  "display_config \<Rightarrow> environment \<Rightarrow> image \<Rightarrow> cell_config \<Rightarrow> (string \<rightharpoonup> string) \<Rightarrow> nat \<Rightarrow> nat
     \<Rightarrow> bool \<Rightarrow> py_error + image" where
  "draw_cell cfg env img cell sensor_data cell_width cell_height debug_borders =
     (let x = int (cell_col cell * cell_width);
          y = int (cell_row cell * cell_height);
          w = int cell_width;
          h = int cell_height
      in case (if debug_borders then rectangle_outline x y (x + w - 1) (y + h - 1) 0 1 img
               else Inr img) of
           Inl e \<Rightarrow> Inl e
         | Inr img1 \<Rightarrow>
            (case cell_sensor cell of
               None \<Rightarrow> Inr img1
             | Some sensor_key \<Rightarrow>
                if sensor_key = [] then Inr img1
                else
                  (let val = (case sensor_data sensor_key of None \<Rightarrow> ''---'' | Some v \<Rightarrow> v)
                   in case get_warning_level val (cell_thresholds cell) of
                        Inl e \<Rightarrow> Inl e
                      | Inr warning_level \<Rightarrow>
                         (let invert = (warning_level = 2);
                              fg_color = (if invert then 1 else 0)
                          in case (if invert then rectangle_fill x y (x + w) (y + h) 0 img1
                                   else Inr img1) of
                               Inl e \<Rightarrow> Inl e
                             | Inr img2 \<Rightarrow>
                                (case (if warning_level = 1
                                       then rectangle_outline x y (x + w - 1) (y + h - 1) 0 2 img2
                                       else Inr img2) of
                                   Inl e \<Rightarrow> Inl e
                                 | Inr img3 \<Rightarrow>
                                    (case format_value (env_float_str env) val
                                            (case cell_format cell of None \<Rightarrow> ''1f'' | Some f \<Rightarrow> f)
                                            (case cell_suffix cell of None \<Rightarrow> [] | Some s \<Rightarrow> s) of
                                       Inl e \<Rightarrow> Inl e
                                     | Inr formatted_value \<Rightarrow>
                                        (let icon_name = (case cell_icon cell of None \<Rightarrow> [] | Some n \<Rightarrow> n);
                                             icon_y_off = (case cell_icon_y_offset cell of None \<Rightarrow> 0 | Some k \<Rightarrow> k);
                                             img4 =
                                               (if icon_name \<noteq> [] then
                                                  (case env_load_icon env icon_name (icon_size cfg) invert of
                                                     None \<Rightarrow> img3
                                                   | Some ic \<Rightarrow>
                                                      paste ic (x + 4)
                                                        (y + (h - int (icon_size cfg)) div 2 + icon_y_off) img3)
                                                else img3)
                                         in Inr (env_draw_text env
                                                   (cell_col cell * cell_width + icon_size cfg + 12,
                                                    cell_row cell * cell_height)
                                                   formatted_value fg_color img4))))))))"

text \<open>The loop of \<open>generate_display_image\<close> over the cells.\<close>

fun draw_cells ::
  "display_config \<Rightarrow> environment \<Rightarrow> (string \<rightharpoonup> string) \<Rightarrow> nat \<Rightarrow> nat \<Rightarrow> bool
     \<Rightarrow> cell_config list \<Rightarrow> image \<Rightarrow> py_error + image" where
  "draw_cells cfg env sensor_data cell_width cell_height debug_borders [] img = Inr img"
| "draw_cells cfg env sensor_data cell_width cell_height debug_borders (cell # cells) img =
    (case draw_cell cfg env img cell sensor_data cell_width cell_height debug_borders of
       Inl e \<Rightarrow> Inl e
     | Inr img' \<Rightarrow> draw_cells cfg env sensor_data cell_width cell_height debug_borders cells img')"

definition DEBUG_BORDERS :: bool where
  "DEBUG_BORDERS = False"

definition generate_display_image ::
  "display_config \<Rightarrow> environment \<Rightarrow> (string \<rightharpoonup> string) \<Rightarrow> py_error + image" where
  "generate_display_image cfg env sensor_data =
     draw_cells cfg env sensor_data (width cfg div cols cfg) (height cfg div rows cfg) DEBUG_BORDERS
       GRID_CONFIG (new_image (width cfg) (height cfg) 1)"

section \<open>Auxiliary definitions for the proofs\<close>

definition or_bits :: "(nat \<Rightarrow> bool) \<Rightarrow> nat list \<Rightarrow> nat \<Rightarrow> nat" where
  "or_bits c bs byte = foldl (\<lambda>acc b. if c b then acc OR push_bit (7 - b) 1 else acc) byte bs"

definition packed_byte :: "nat list \<Rightarrow> nat \<Rightarrow> nat \<Rightarrow> nat \<Rightarrow> nat" where
  "packed_byte pixels w y x =
     or_bits (\<lambda>b. x + b < w \<and> pixels ! (y * w + (x + b)) \<noteq> 0) [0..<8] 0"

definition bits_fb :: "nat \<Rightarrow> nat \<Rightarrow> nat \<Rightarrow> nat list \<Rightarrow> (nat \<Rightarrow> nat \<Rightarrow> nat) \<Rightarrow> nat \<Rightarrow> nat \<Rightarrow> nat" where
  "bits_fb byte x y bs f =
     (\<lambda>x' y'. if y' = y \<and> (\<exists>b\<in>set bs. x' = x + b \<and> x' < WIDTH \<and> \<not> bit byte (7 - b))
              then 0 else f x' y')"

definition row_fb :: "nat list \<Rightarrow> nat \<Rightarrow> nat list \<Rightarrow> nat \<Rightarrow> (nat \<Rightarrow> nat \<Rightarrow> nat) \<Rightarrow> nat \<Rightarrow> nat \<Rightarrow> nat" where
  "row_fb img_bytes y xs i f =
     (\<lambda>x' y'. if y' = y \<and> (\<exists>k<length xs. i + k < length img_bytes \<and>
                   (\<exists>b<8. x' = xs ! k + b \<and> x' < WIDTH \<and> \<not> bit (img_bytes ! (i + k)) (7 - b)))
              then 0 else f x' y')"

definition adv :: "nat list \<Rightarrow> nat \<Rightarrow> nat \<Rightarrow> nat" where
  "adv img_bytes i m = max i (min (i + m) (length img_bytes))"

definition rows_fb :: "nat list \<Rightarrow> nat list \<Rightarrow> nat \<Rightarrow> (nat \<Rightarrow> nat \<Rightarrow> nat) \<Rightarrow> nat \<Rightarrow> nat \<Rightarrow> nat" where
  "rows_fb img_bytes ys i f =
     (\<lambda>x' y'. if \<exists>j<length ys. y' = ys ! j \<and>
                  (\<exists>k<length (range_step WIDTH 8). i + j * length (range_step WIDTH 8) + k < length img_bytes \<and>
                   (\<exists>b<8. x' = range_step WIDTH 8 ! k + b \<and> x' < WIDTH
                      \<and> \<not> bit (img_bytes ! (i + j * length (range_step WIDTH 8) + k)) (7 - b)))
              then 0 else f x' y')"

definition unpacked :: "nat list \<Rightarrow> nat \<Rightarrow> nat \<Rightarrow> nat" where
  "unpacked img_bytes x y =
     (if x < WIDTH \<and> y < HEIGHT \<and> y * ((WIDTH + 7) div 8) + x div 8 < length img_bytes
         \<and> \<not> bit (img_bytes ! (y * ((WIDTH + 7) div 8) + x div 8)) (7 - x mod 8)
      then 0 else 15)"

definition painted :: "nat list \<Rightarrow> display \<Rightarrow> display" where
  "painted img_bytes d = d\<lparr>pen := 0, fb := unpacked img_bytes, texts := []\<rparr>"

text \<open>A run of successive image frames, each painted with \<open>display_image\<close>.\<close>

fun paint_all :: "nat list list \<Rightarrow> painter \<Rightarrow> py_error + painter" where
  "paint_all [] st = Inr st"
| "paint_all (img_bytes # frames) st =
    (case display_image img_bytes st of
       Inl e \<Rightarrow> Inl e
     | Inr st' \<Rightarrow> paint_all frames st')"

text \<open>\<open>val < t\<close> for a float and a number; the value and the sign of a finite float.\<close>

definition float_lt :: "pyfloat \<Rightarrow> rat \<Rightarrow> bool" where
  "float_lt val t =
     (case val of Fin q \<Rightarrow> q < t | NegZero \<Rightarrow> 0 < t | PInf \<Rightarrow> False | NInf \<Rightarrow> True
      | NaN \<Rightarrow> False)"

definition finite_value :: "pyfloat \<Rightarrow> rat option" where
  "finite_value val = (case val of Fin q \<Rightarrow> Some q | NegZero \<Rightarrow> Some 0 | _ \<Rightarrow> None)"

definition sign_bit :: "pyfloat \<Rightarrow> bool" where
  "sign_bit val = (case val of Fin q \<Rightarrow> q < 0 | NegZero \<Rightarrow> True | NInf \<Rightarrow> True | _ \<Rightarrow> False)"

section \<open>Lemmas about the packer and the paint routine\<close>

lemma pack_bits_ok:
  assumes "\<forall>b\<in>set bs. x + b < w \<longrightarrow> y * w + (x + b) < length pixels"
  shows "pack_bits pixels w y x bs byte =
         Inr (or_bits (\<lambda>b. x + b < w \<and> pixels ! (y * w + (x + b)) \<noteq> 0) bs byte)"
  using assms
  by (induction bs arbitrary: byte) (auto simp: or_bits_def getitem_def Let_def)

lemma bit_or_bits:
  "bit (or_bits c bs byte) n \<longleftrightarrow> bit byte n \<or> (\<exists>b\<in>set bs. c b \<and> 7 - b = n)"
  by (induction bs arbitrary: byte) (auto simp: or_bits_def bit_or_iff bit_exp_iff)

lemma bit_or_bits8:
  "bit (or_bits c [0..<8] 0) n \<longleftrightarrow> n < 8 \<and> c (7 - n)"
proof -
  have "(\<exists>b\<in>set [0..<8]. c b \<and> 7 - b = n) \<longleftrightarrow> n < 8 \<and> c (7 - n)"
  proof
    assume "\<exists>b\<in>set [0..<8]. c b \<and> 7 - b = n"
    then obtain b where "b < 8" "c b" "7 - b = n" by auto
    then have "b = 7 - n" "n < 8" by auto
    with \<open>c b\<close> show "n < 8 \<and> c (7 - n)" by simp
  next
    assume "n < 8 \<and> c (7 - n)"
    then have "7 - n \<in> set [0..<8]" "c (7 - n)" "7 - (7 - n) = n" by auto
    then show "\<exists>b\<in>set [0..<8]. c b \<and> 7 - b = n" by blast
  qed
  then show ?thesis by (simp add: bit_or_bits)
qed

lemma or_bits8_less: "or_bits c [0..<8] 0 < 256"
proof -
  have "take_bit 8 (or_bits c [0..<8] 0) = or_bits c [0..<8] 0"
    by (rule bit_eqI) (auto simp: bit_take_bit_iff bit_or_bits8)
  then have "or_bits c [0..<8] 0 < 2 ^ 8"
    by (metis take_bit_nat_less_exp)
  then show ?thesis by simp
qed

lemma pack_row_ok:
  assumes "(y + 1) * w \<le> length pixels"
  shows "pack_row pixels w y xs byte_data = Inr (byte_data @ map (packed_byte pixels w y) xs)"
proof (induction xs arbitrary: byte_data)
  case Nil
  show ?case by simp
next
  case (Cons x xs)
  have "\<forall>b\<in>set [0..<8]. x + b < w \<longrightarrow> y * w + (x + b) < length pixels"
    using assms by auto
  then have "pack_bits pixels w y x [0..<8] 0 = Inr (packed_byte pixels w y x)"
    unfolding packed_byte_def by (rule pack_bits_ok)
  moreover have "packed_byte pixels w y x < 256"
    unfolding packed_byte_def by (rule or_bits8_less)
  ultimately show ?case
    by (simp add: bytearray_append_def Cons.IH)
qed

lemma pack_rows_ok:
  assumes "\<forall>y\<in>set ys. (y + 1) * w \<le> length pixels"
  shows "pack_rows pixels w ys byte_data =
         Inr (byte_data @ concat (map (\<lambda>y. map (packed_byte pixels w y) (range_step w 8)) ys))"
  using assms
  by (induction ys arbitrary: byte_data) (simp_all add: pack_row_ok)

lemma nth_concat_uniform:
  assumes "\<forall>r\<in>set rs. length r = n" and "i < length rs" and "k < n"
  shows "concat rs ! (i * n + k) = rs ! i ! k"
  using assms
proof (induction rs arbitrary: i)
  case Nil
  then show ?case by simp
next
  case (Cons r rs)
  show ?case
  proof (cases i)
    case 0
    with Cons.prems show ?thesis by (simp add: nth_append)
  next
    case (Suc j)
    with Cons.prems have "concat rs ! (j * n + k) = rs ! j ! k"
      by (intro Cons.IH) auto
    with Suc Cons.prems show ?thesis
      by (simp add: nth_append add.assoc)
  qed
qed

lemma length_concat_uniform:
  "\<forall>r\<in>set rs. length r = n \<Longrightarrow> length (concat rs) = length rs * n"
  by (induction rs) simp_all

lemma length_range_step8: "length (range_step w 8) = (w + 7) div 8"
  by (simp add: range_step_def)

lemma nth_range_step8: "k < (w + 7) div 8 \<Longrightarrow> range_step w 8 ! k = k * 8"
  by (simp add: range_step_def ac_simps)

lemma length_get_flattened_data: "length (get_flattened_data img) = iw img * ih img"
  by (simp add: get_flattened_data_def)

lemma row_index_less:
  assumes "px < (w::nat)" and "y < h"
  shows "y * w + px < w * h"
proof -
  have "y * w + px < y * w + w" using assms by simp
  also have "\<dots> = (y + 1) * w" by simp
  also have "\<dots> \<le> h * w" using assms by (intro mult_le_mono1) simp
  finally show ?thesis by (simp add: mult.commute)
qed

lemma nth_get_flattened_data:
  assumes "px < iw img" and "y < ih img"
  shows "get_flattened_data img ! (y * iw img + px) = pix img px y"
  using assms row_index_less [OF assms]
  by (simp add: get_flattened_data_def)

lemma packer_bytes:
  assumes "iw img = width cfg" and "ih img = height cfg"
  shows "\<exists>bs. image_to_badge_bytes cfg img = Inr bs
     \<and> length bs = height cfg * ((width cfg + 7) div 8)
     \<and> (\<forall>y<height cfg. \<forall>k<(width cfg + 7) div 8. \<forall>j<8.
          bit (bs ! (y * ((width cfg + 7) div 8) + k)) (7 - j)
            \<longleftrightarrow> (8 * k + j < width cfg \<and> pix img (8 * k + j) y \<noteq> 0))
     \<and> (\<forall>b\<in>set bs. b < 256)"
proof -
  define w h n pixels where "w = width cfg" and "h = height cfg"
    and "n = (width cfg + 7) div 8" and "pixels = get_flattened_data img"
  define rs where "rs = map (\<lambda>y. map (packed_byte pixels w y) (range_step w 8)) [0..<h]"
  have len: "length pixels = w * h"
    by (simp add: pixels_def length_get_flattened_data assms w_def h_def)
  have "\<forall>y\<in>set [0..<h]. (y + 1) * w \<le> length pixels"
  proof
    fix y assume "y \<in> set [0..<h]"
    then have "y + 1 \<le> h" by simp
    then have "(y + 1) * w \<le> h * w" by (rule mult_le_mono1)
    then show "(y + 1) * w \<le> length pixels" by (simp add: len mult.commute)
  qed
  then have res: "image_to_badge_bytes cfg img = Inr (concat rs)"
    by (simp add: image_to_badge_bytes_def pack_rows_ok rs_def w_def h_def pixels_def)
  have uni: "\<forall>r\<in>set rs. length r = n"
    by (auto simp: rs_def n_def w_def length_range_step8)
  have lrs: "length rs = h" by (simp add: rs_def)
  have l: "length (concat rs) = h * n"
    using length_concat_uniform [OF uni] by (simp add: lrs)
  have bits: "bit (concat rs ! (y * n + k)) (7 - j) \<longleftrightarrow> (8 * k + j < w \<and> pix img (8 * k + j) y \<noteq> 0)"
    if "y < h" "k < n" "j < 8" for y k j
  proof -
    have "concat rs ! (y * n + k) = rs ! y ! k"
      using uni that by (intro nth_concat_uniform) (simp_all add: lrs)
    also have "\<dots> = packed_byte pixels w y (k * 8)"
      using that by (simp add: rs_def nth_range_step8 n_def w_def length_range_step8)
    finally have "bit (concat rs ! (y * n + k)) (7 - j)
        \<longleftrightarrow> (k * 8 + j < w \<and> pixels ! (y * w + (k * 8 + j)) \<noteq> 0)"
      using that less_imp_diff_less [of 7 8 j] by (simp add: packed_byte_def bit_or_bits8)
    moreover have "pixels ! (y * w + (k * 8 + j)) = pix img (k * 8 + j) y" if "k * 8 + j < w"
      using that \<open>y < h\<close> nth_get_flattened_data [of "k * 8 + j" img y]
      by (simp add: pixels_def assms w_def h_def)
    ultimately show ?thesis by (auto simp: mult.commute)
  qed
  have bound: "\<forall>b\<in>set (concat rs). b < 256"
    by (auto simp: rs_def packed_byte_def or_bits8_less)
  show ?thesis
    using res l bits bound by (auto simp: w_def h_def n_def)
qed

lemma and_push_bit_1_eq_0_iff:
  "(byte::nat) AND push_bit n 1 = 0 \<longleftrightarrow> \<not> bit byte n"
  "(byte::nat) AND 2 ^ n = 0 \<longleftrightarrow> \<not> bit byte n"
  "0 < (byte::nat) AND 2 ^ n \<longleftrightarrow> bit byte n"
  using and_exp_eq_0_iff_not_bit [of byte n] by auto

lemma paint_bits_ok:
  assumes "y < HEIGHT" and "pen d = 0"
  shows "paint_bits byte x y bs d = Inr (d\<lparr>fb := bits_fb byte x y bs (fb d)\<rparr>)"
  using assms(2)
proof (induction bs arbitrary: d)
  case Nil
  show ?case by (simp add: bits_fb_def)
next
  case (Cons b bs)
  show ?case
  proof (cases "x + b < WIDTH \<and> \<not> bit byte (7 - b)")
    case True
    define d' where "d' = d\<lparr>fb := (\<lambda>x' y'. if x' = x + b \<and> y' = y then 0 else fb d x' y')\<rparr>"
    have "set_pen 0 d = d"
      using Cons.prems by (cases d) (simp add: set_pen_def)
    moreover have "(\<lambda>x' y'. if x' = x + b \<and> y' = y then pen d else fb d x' y') =
        (\<lambda>x' y'. if x' = x + b \<and> y' = y then 0 else fb d x' y')"
      using Cons.prems by (simp cong: if_cong)
    ultimately have px: "pixel (x + b) y (set_pen 0 d) = Inr d'"
      using True assms(1) by (simp add: pixel_def d'_def)
    have "pen d' = 0" using Cons.prems by (simp add: d'_def)
    then have "paint_bits byte x y bs d' = Inr (d'\<lparr>fb := bits_fb byte x y bs (fb d')\<rparr>)"
      by (rule Cons.IH)
    moreover have "bits_fb byte x y bs (fb d') = bits_fb byte x y (b # bs) (fb d)"
      using True by (intro ext) (auto simp: bits_fb_def d'_def)
    ultimately show ?thesis
      using True px by (simp add: and_push_bit_1_eq_0_iff d'_def)
  next
    case False
    have "bits_fb byte x y (b # bs) (fb d) = bits_fb byte x y bs (fb d)"
      using False by (intro ext) (auto simp: bits_fb_def)
    with False Cons.IH [OF Cons.prems] show ?thesis
      by (auto simp: and_push_bit_1_eq_0_iff Let_def)
  qed
qed

lemma paint_row_ok:
  assumes "y < HEIGHT" and "pen d = 0"
  shows "paint_row img_bytes y xs (d, i) =
         Inr (d\<lparr>fb := row_fb img_bytes y xs i (fb d)\<rparr>, adv img_bytes i (length xs))"
  using assms(2)
proof (induction xs arbitrary: d i)
  case Nil
  show ?case by (simp add: row_fb_def adv_def)
next
  case (Cons x xs)
  show ?case
  proof (cases "i < length img_bytes")
    case True
    define d' where "d' = d\<lparr>fb := bits_fb (img_bytes ! i) x y [0..<8] (fb d)\<rparr>"
    have pb: "paint_bits (img_bytes ! i) x y [0..<8] d = Inr d'"
      unfolding d'_def using assms(1) Cons.prems by (rule paint_bits_ok)
    have "pen d' = 0" using Cons.prems by (simp add: d'_def)
    then have ih: "paint_row img_bytes y xs (d', i + 1) =
       Inr (d'\<lparr>fb := row_fb img_bytes y xs (i + 1) (fb d')\<rparr>, adv img_bytes (i + 1) (length xs))"
      by (rule Cons.IH)
    have "row_fb img_bytes y xs (i + 1) (fb d') = row_fb img_bytes y (x # xs) i (fb d)"
      using True
      by (intro ext) (auto simp: row_fb_def d'_def bits_fb_def Ex_less_Suc2)
    moreover have "adv img_bytes (i + 1) (length xs) = adv img_bytes i (length (x # xs))"
      using True by (simp add: adv_def)
    ultimately show ?thesis
      using True pb ih by (simp add: getitem_def d'_def)
  next
    case False
    have "row_fb img_bytes y xs i (fb d) = row_fb img_bytes y (x # xs) i (fb d)"
      using False by (intro ext) (auto simp: row_fb_def)
    moreover have "adv img_bytes i (length xs) = adv img_bytes i (length (x # xs))"
      using False by (simp add: adv_def)
    ultimately show ?thesis
      using False Cons.IH [OF Cons.prems, of i] by simp
  qed
qed

lemma adv_adv: "adv img_bytes (adv img_bytes i m) m' = adv img_bytes i (m + m')"
  by (auto simp: adv_def max_def min_def)

lemma rows_fb_Cons:
  "rows_fb img_bytes ys (adv img_bytes i (length (range_step WIDTH 8)))
      (row_fb img_bytes y (range_step WIDTH 8) i f) = rows_fb img_bytes (y # ys) i f"
proof (cases "i + length (range_step WIDTH 8) \<le> length img_bytes")
  case True
  then have "adv img_bytes i (length (range_step WIDTH 8)) = i + length (range_step WIDTH 8)"
    by (simp add: adv_def)
  then show ?thesis
    by (intro ext) (auto simp: rows_fb_def row_fb_def Ex_less_Suc2 add.assoc)
next
  case False
  then have "adv img_bytes i (length (range_step WIDTH 8)) \<ge> length img_bytes"
    by (simp add: adv_def)
  with False show ?thesis
    by (intro ext) (auto simp: rows_fb_def row_fb_def Ex_less_Suc2)
qed

lemma paint_rows_ok:
  assumes "\<forall>y\<in>set ys. y < HEIGHT" and "pen d = 0"
  shows "paint_rows img_bytes ys (d, i) =
         Inr (d\<lparr>fb := rows_fb img_bytes ys i (fb d)\<rparr>,
              adv img_bytes i (length ys * length (range_step WIDTH 8)))"
  using assms
proof (induction ys arbitrary: d i)
  case Nil
  show ?case by (simp add: rows_fb_def adv_def)
next
  case (Cons y ys)
  define d' where "d' = d\<lparr>fb := row_fb img_bytes y (range_step WIDTH 8) i (fb d)\<rparr>"
  have "y < HEIGHT" using Cons.prems by simp
  then have row: "paint_row img_bytes y (range_step WIDTH 8) (d, i) =
      Inr (d', adv img_bytes i (length (range_step WIDTH 8)))"
    unfolding d'_def using Cons.prems(2) by (rule paint_row_ok)
  have "pen d' = 0" using Cons.prems by (simp add: d'_def)
  with Cons.prems have "paint_rows img_bytes ys (d', adv img_bytes i (length (range_step WIDTH 8))) =
      Inr (d'\<lparr>fb := rows_fb img_bytes ys (adv img_bytes i (length (range_step WIDTH 8))) (fb d')\<rparr>,
           adv img_bytes (adv img_bytes i (length (range_step WIDTH 8))) (length ys * length (range_step WIDTH 8)))"
    by (intro Cons.IH) simp_all
  then show ?case
    using row by (simp add: d'_def rows_fb_Cons adv_adv)
qed

lemma rows_fb_all: "rows_fb img_bytes [0..<HEIGHT] 0 (\<lambda>x y. 15) = unpacked img_bytes"
proof (intro ext)
  fix x y
  let ?n = "(WIDTH + 7) div 8"
  have n: "length (range_step WIDTH 8) = ?n" by (simp add: range_step_def)
  have nth: "range_step WIDTH 8 ! k = k * 8" if "k < ?n" for k
    using that by (simp add: range_step_def ac_simps)
  have "(\<exists>j<HEIGHT. y = [0..<HEIGHT] ! j \<and>
          (\<exists>k<?n. j * ?n + k < length img_bytes \<and>
             (\<exists>b<8. x = range_step WIDTH 8 ! k + b \<and> x < WIDTH \<and> \<not> bit (img_bytes ! (j * ?n + k)) (7 - b))))
      \<longleftrightarrow> (x < WIDTH \<and> y < HEIGHT \<and> y * ?n + x div 8 < length img_bytes
         \<and> \<not> bit (img_bytes ! (y * ?n + x div 8)) (7 - x mod 8))" (is "?L \<longleftrightarrow> ?R")
  proof
    assume ?L
    then obtain j k b where *: "j < HEIGHT" "y = j" "k < ?n" "j * ?n + k < length img_bytes" "b < 8"
      "x = k * 8 + b" "x < WIDTH" "\<not> bit (img_bytes ! (j * ?n + k)) (7 - b)"
      by (auto simp: nth)
    then have "x div 8 = k" "x mod 8 = b" by auto
    with * show ?R by simp
  next
    assume r: ?R
    have "x div 8 < ?n" using r by auto
    moreover have "x mod 8 < 8" "x = x div 8 * 8 + x mod 8" by auto
    ultimately show ?L
      using r
      by (intro exI [of _ y] conjI exI [of _ "x div 8"] exI [of _ "x mod 8"]) (simp_all add: nth)
  qed
  then show "rows_fb img_bytes [0..<HEIGHT] 0 (\<lambda>x y. 15) x y = unpacked img_bytes x y"
    by (simp add: rows_fb_def unpacked_def n)
qed

lemma display_image_ok:
  "display_image img_bytes st =
     Inr (if update_count st + 1 \<ge> FULL_REFRESH_INTERVAL
          then \<lparr>dsp = set_update_speed UPDATE_FAST
                        (update (set_update_speed UPDATE_NORMAL (painted img_bytes (dsp st)))),
                update_count = 0\<rparr>
          else \<lparr>dsp = update (painted img_bytes (dsp st)), update_count = update_count st + 1\<rparr>)"
proof -
  define d where "d = set_pen 0 (clear (set_pen 15 (dsp st)))"
  have "pen d = 0" by (simp add: d_def set_pen_def clear_def)
  moreover have "\<forall>y\<in>set [0..<HEIGHT]. y < HEIGHT" by simp
  ultimately have "paint_rows img_bytes [0..<HEIGHT] (d, 0) =
     Inr (d\<lparr>fb := rows_fb img_bytes [0..<HEIGHT] 0 (fb d)\<rparr>,
          adv img_bytes 0 (length [0..<HEIGHT] * length (range_step WIDTH 8)))"
    by (intro paint_rows_ok)
  moreover have "fb d = (\<lambda>x y. 15)" by (simp add: d_def set_pen_def clear_def)
  moreover have "d\<lparr>fb := unpacked img_bytes\<rparr> = painted img_bytes (dsp st)"
    by (simp add: d_def set_pen_def clear_def painted_def)
  ultimately show ?thesis
    by (simp add: display_image_def Let_def rows_fb_all flip: d_def)
qed

lemma paint_all_append:
  "paint_all (fs @ gs) st = (case paint_all fs st of Inl e \<Rightarrow> Inl e | Inr st' \<Rightarrow> paint_all gs st')"
  by (induction fs arbitrary: st) (auto split: sum.splits)

lemma display_image_fast:
  assumes "update_count st + 1 < FULL_REFRESH_INTERVAL"
  shows "\<exists>st'. display_image img_bytes st = Inr st'
     \<and> update_count st' = update_count st + 1
     \<and> speed (dsp st') = speed (dsp st)
     \<and> refreshes (dsp st') = refreshes (dsp st) @ [speed (dsp st)]"
  using assms by (simp add: display_image_ok update_def painted_def)

lemma display_image_full:
  assumes "update_count st + 1 \<ge> FULL_REFRESH_INTERVAL"
  shows "\<exists>st'. display_image img_bytes st = Inr st'
     \<and> update_count st' = 0
     \<and> speed (dsp st') = UPDATE_FAST
     \<and> refreshes (dsp st') = refreshes (dsp st) @ [UPDATE_NORMAL]"
  using assms by (simp add: display_image_ok update_def painted_def set_update_speed_def)

lemma paint_all_fast:
  assumes "update_count st + length frames < FULL_REFRESH_INTERVAL"
  shows "\<exists>st'. paint_all frames st = Inr st'
     \<and> update_count st' = update_count st + length frames
     \<and> speed (dsp st') = speed (dsp st)
     \<and> refreshes (dsp st') = refreshes (dsp st) @ replicate (length frames) (speed (dsp st))"
  using assms
proof (induction frames arbitrary: st)
  case Nil
  show ?case by simp
next
  case (Cons f frames)
  then have "update_count st + 1 < FULL_REFRESH_INTERVAL" by simp
  from display_image_fast [OF this, of f] obtain s1 where
    s1: "display_image f st = Inr s1" "update_count s1 = update_count st + 1"
        "speed (dsp s1) = speed (dsp st)"
        "refreshes (dsp s1) = refreshes (dsp st) @ [speed (dsp st)]"
    by blast
  have "update_count s1 + length frames < FULL_REFRESH_INTERVAL"
    using Cons.prems s1 by simp
  from Cons.IH [OF this] obtain s2 where
    s2: "paint_all frames s1 = Inr s2" "update_count s2 = update_count s1 + length frames"
        "speed (dsp s2) = speed (dsp s1)"
        "refreshes (dsp s2) = refreshes (dsp s1) @ replicate (length frames) (speed (dsp s1))"
    by blast
  show ?case
    using s1 s2 by (simp add: replicate_append_same)
qed

section \<open>Lemmas about base64 and the read loop\<close>

lemma sextet_b64char_all: "list_all (\<lambda>n. sextet (b64char n) = Some n) [0..<64]"
  by (simp add: upt_conv_Cons sextet_def b64char_def b64_table_def)

lemma sextet_b64char: "n < 64 \<Longrightarrow> sextet (b64char n) = Some n"
  using sextet_b64char_all by (simp add: list_all_iff)

lemma b64char_plain_all:
  "list_all (\<lambda>n. b64char n \<noteq> CHR ''='' \<and> b64char n \<noteq> newline \<and> \<not> isspace (b64char n)) [0..<64]"
  by (simp add: upt_conv_Cons b64char_def b64_table_def newline_def isspace_def)

lemma b64char_plain:
  assumes "n < 64"
  shows "b64char n \<noteq> CHR ''=''" and "b64char n \<noteq> newline" and "\<not> isspace (b64char n)"
  using b64char_plain_all assms by (simp_all add: list_all_iff)

lemma sextet_pad: "sextet CHR ''='' = None"
  by (simp add: sextet_def)

lemma shift_in_mod:
  assumes "s < 64" and "64 * m dvd 2 ^ 32"
  shows "shift_in S s mod (64 * m) = 64 * (S mod m) + s"
proof -
  have "shift_in S s mod (64 * m) = (S * 64 + s) mod (64 * m)"
    unfolding shift_in_def using assms(2) by (rule mod_mod_cancel)
  also have "\<dots> = 64 * ((S * 64 + s) div 64 mod m) + (S * 64 + s) mod 64"
    by (rule mod_mult2_eq)
  also have "(S * 64 + s) div 64 = S" using assms(1) by simp
  also have "(S * 64 + s) mod 64 = s" using assms(1) by simp
  finally show ?thesis .
qed

lemma shift_in_mod64: "s < 64 \<Longrightarrow> shift_in S s mod 64 = s"
  using shift_in_mod [of s 1 S] by simp

lemma shift_in_mod16: "s < 64 \<Longrightarrow> shift_in S s mod 16 = s mod 16"
proof -
  assume "s < 64"
  then have "shift_in S s mod 64 mod 16 = s mod 16" by (simp add: shift_in_mod64)
  then show ?thesis by (simp add: mod_mod_cancel)
qed

lemma shift_in_mod4: "s < 64 \<Longrightarrow> shift_in S s mod 4 = s mod 4"
proof -
  assume "s < 64"
  then have "shift_in S s mod 64 mod 4 = s mod 4" by (simp add: shift_in_mod64)
  then show ?thesis by (simp add: mod_mod_cancel)
qed

lemma div_mod_low: "0 < n \<Longrightarrow> (x div n) mod q = x mod (n * q) div (n::nat)"
  by (simp add: mod_mult2_eq)

lemma regroup1:
  assumes "b < 256"
  shows "(64 * (a div 4) + (a mod 4 * 16 + b div 16)) div 16 = (a::nat)"
proof -
  have t: "b div 16 < 16" using assms by simp
  have "64 * (a div 4) + (a mod 4 * 16 + b div 16) = a * 16 + b div 16"
    using mult_div_mod_eq [of 4 a] by linarith
  also have "\<dots> div 16 = a"
    using t by simp
  finally show ?thesis .
qed

lemma regroup2:
  assumes "b < 256" and "c < 256"
  shows "(64 * ((a mod 4 * 16 + b div 16) mod 16) + (b mod 16 * 4 + c div 64)) div 4 = (b::nat)"
proof -
  have t: "b div 16 < 16" "c div 64 < 4" using assms by simp_all
  have "(a mod 4 * 16 + b div 16) mod 16 = b div 16" using t by simp
  then have "64 * ((a mod 4 * 16 + b div 16) mod 16) + (b mod 16 * 4 + c div 64)
      = 64 * (b div 16) + (b mod 16 * 4 + c div 64)"
    by simp
  also have "\<dots> = b * 4 + c div 64"
    using mult_div_mod_eq [of 16 b] by linarith
  also have "\<dots> div 4 = b"
    using t by simp
  finally show ?thesis .
qed

lemma regroup3:
  assumes "c < 256"
  shows "64 * ((b mod 16 * 4 + c div 64) mod 4) + c mod 64 = (c::nat)"
proof -
  have t: "c div 64 < 4" using assms by simp
  then have "(b mod 16 * 4 + c div 64) mod 4 = c div 64" by simp
  then show ?thesis by simp
qed

text \<open>One alphabet character in each of the four positions of a group.\<close>

declare a2b_loop.simps [simp del]

lemma a2b_loop_first:
  assumes "n < 64"
  shows "a2b_loop (b64char n # rest) S 0 h out = a2b_loop rest (shift_in S n) 6 False out"
  using assms by (simp add: a2b_loop.simps sextet_b64char b64char_plain Let_def)

lemma a2b_loop_second:
  assumes "n < 64"
  shows "a2b_loop (b64char n # rest) S 6 h out =
         a2b_loop rest (shift_in S n) 4 False (out @ [shift_in S n div 16 mod 256])"
  using assms by (simp add: a2b_loop.simps sextet_b64char b64char_plain Let_def)

lemma a2b_loop_third:
  assumes "n < 64"
  shows "a2b_loop (b64char n # rest) S 4 h out =
         a2b_loop rest (shift_in S n) 2 False (out @ [shift_in S n div 4 mod 256])"
  using assms by (simp add: a2b_loop.simps sextet_b64char b64char_plain Let_def)

lemma a2b_loop_fourth:
  assumes "n < 64"
  shows "a2b_loop (b64char n # rest) S 2 h out =
         a2b_loop rest (shift_in S n) 0 False (out @ [shift_in S n mod 256])"
  using assms by (simp add: a2b_loop.simps sextet_b64char b64char_plain Let_def)

lemma a2b_loop_pad:
  "a2b_loop (CHR ''='' # rest) S 2 h out = (0, out)"
  "a2b_loop (CHR ''='' # rest) S 4 True out = (0, out)"
  "a2b_loop (CHR ''='' # rest) S 4 False out = a2b_loop rest S 4 True out"
  by (simp_all add: a2b_loop.simps sextet_pad)

lemma sextets_less:
  fixes a b c :: nat
  assumes "a < 256" and "b < 256" and "c < 256"
  shows "a div 4 < 64" and "a mod 4 * 16 + b div 16 < 64" and "b mod 16 * 4 + c div 64 < 64"
    and "c mod 64 < 64" and "a mod 4 * 16 < 64" and "b mod 16 * 4 < 64"
proof -
  have "a mod 4 < 4" "b div 16 < 16" "b mod 16 < 16" "c div 64 < 4"
    using assms by simp_all
  then show "a mod 4 * 16 + b div 16 < 64" "b mod 16 * 4 + c div 64 < 64"
    "a mod 4 * 16 < 64" "b mod 16 * 4 < 64"
    by linarith+
  show "a div 4 < 64" "c mod 64 < 64" using assms by simp_all
qed

text \<open>The byte that the second, third and fourth character of a group complete.\<close>

lemma first_byte:
  assumes "s1 < 64" and "s2 < 64"
  shows "shift_in (shift_in S s1) s2 div 16 mod 256 = (64 * s1 + s2) div 16"
proof -
  have "shift_in (shift_in S s1) s2 div 16 mod 256 = shift_in (shift_in S s1) s2 mod (64 * 64) div 16"
    using div_mod_low [of 16 "shift_in (shift_in S s1) s2" 256] by simp
  also have "shift_in (shift_in S s1) s2 mod (64 * 64) = 64 * (shift_in S s1 mod 64) + s2"
    using assms(2) by (intro shift_in_mod) simp_all
  finally show ?thesis using assms(1) by (simp add: shift_in_mod64)
qed

lemma second_byte:
  assumes "s2 < 64" and "s3 < 64"
  shows "shift_in (shift_in S s2) s3 div 4 mod 256 = (64 * (s2 mod 16) + s3) div 4"
proof -
  have "shift_in (shift_in S s2) s3 div 4 mod 256 = shift_in (shift_in S s2) s3 mod (64 * 16) div 4"
    using div_mod_low [of 4 "shift_in (shift_in S s2) s3" 256] by simp
  also have "shift_in (shift_in S s2) s3 mod (64 * 16) = 64 * (shift_in S s2 mod 16) + s3"
    using assms(2) by (intro shift_in_mod) simp_all
  finally show ?thesis using assms(1) by (simp add: shift_in_mod16)
qed

lemma third_byte:
  assumes "s3 < 64" and "s4 < 64"
  shows "shift_in (shift_in S s3) s4 mod 256 = 64 * (s3 mod 4) + s4"
proof -
  have "shift_in (shift_in S s3) s4 mod (64 * 4) = 64 * (shift_in S s3 mod 4) + s4"
    using assms(2) by (intro shift_in_mod) simp_all
  then show ?thesis using assms(1) by (simp add: shift_in_mod4)
qed

lemma a2b_loop_group:
  assumes "a < 256" and "b < 256" and "c < 256"
  shows "\<exists>S'. a2b_loop ([b64char (a div 4), b64char (a mod 4 * 16 + b div 16),
             b64char (b mod 16 * 4 + c div 64), b64char (c mod 64)] @ rest) S 0 h out
         = a2b_loop rest S' 0 False (out @ [a, b, c])"
proof -
  note lt = sextets_less [OF assms]
  define S1 where "S1 = shift_in S (a div 4)"
  define S2 where "S2 = shift_in S1 (a mod 4 * 16 + b div 16)"
  define S3 where "S3 = shift_in S2 (b mod 16 * 4 + c div 64)"
  define S4 where "S4 = shift_in S3 (c mod 64)"
  have b1: "S2 div 16 mod 256 = a"
    unfolding S2_def S1_def by (simp only: first_byte [OF lt(1,2)] regroup1 [OF assms(2)])
  have b2: "S3 div 4 mod 256 = b"
    unfolding S3_def S2_def by (simp only: second_byte [OF lt(2,3)] regroup2 [OF assms(2,3)])
  have b3: "S4 mod 256 = c"
    unfolding S4_def S3_def by (simp only: third_byte [OF lt(3,4)] regroup3 [OF assms(3)])
  have "a2b_loop ([b64char (a div 4), b64char (a mod 4 * 16 + b div 16),
             b64char (b mod 16 * 4 + c div 64), b64char (c mod 64)] @ rest) S 0 h out
      = a2b_loop rest S4 0 False (((out @ [S2 div 16 mod 256]) @ [S3 div 4 mod 256]) @ [S4 mod 256])"
    using lt(1-4)
    by (simp only: append_Cons append_Nil a2b_loop_first a2b_loop_second a2b_loop_third
        a2b_loop_fourth S1_def S2_def S3_def S4_def)
  then show ?thesis by (auto simp: b1 b2 b3)
qed

lemma a2b_loop_one:
  assumes "a < 256"
  shows "a2b_loop [b64char (a div 4), b64char (a mod 4 * 16), CHR ''='', CHR ''=''] S 0 h out
         = (0, out @ [a])"
proof -
  have lt: "a div 4 < 64" "a mod 4 * 16 < 64"
    using sextets_less(1,5) [OF assms assms assms] by simp_all
  have "(64 * (a div 4) + a mod 4 * 16) div 16 = a"
    using regroup1 [of 0 a] by simp
  then have "shift_in (shift_in S (a div 4)) (a mod 4 * 16) div 16 mod 256 = a"
    by (simp only: first_byte [OF lt])
  then show ?thesis
    using lt by (simp add: a2b_loop_first a2b_loop_second a2b_loop_pad)
qed

lemma a2b_loop_two:
  assumes "a < 256" and "b < 256"
  shows "a2b_loop [b64char (a div 4), b64char (a mod 4 * 16 + b div 16), b64char (b mod 16 * 4),
           CHR ''=''] S 0 h out = (0, out @ [a, b])"
proof -
  have lt: "a div 4 < 64" "a mod 4 * 16 + b div 16 < 64" "b mod 16 * 4 < 64"
    using sextets_less(1,2,6) [OF assms assms(2)] by simp_all
  have "shift_in (shift_in S (a div 4)) (a mod 4 * 16 + b div 16) div 16 mod 256 = a"
    by (simp only: first_byte [OF lt(1,2)] regroup1 [OF assms(2)])
  moreover have "(64 * ((a mod 4 * 16 + b div 16) mod 16) + b mod 16 * 4) div 4 = b"
    using regroup2 [of b 0 a] assms(2) by simp
  then have "shift_in (shift_in (shift_in S (a div 4)) (a mod 4 * 16 + b div 16))
        (b mod 16 * 4) div 4 mod 256 = b"
    by (simp only: second_byte [OF lt(2,3)])
  ultimately show ?thesis
    using lt by (simp add: a2b_loop_first a2b_loop_second a2b_loop_third a2b_loop_pad)
qed

lemma a2b_loop_b64encode:
  assumes "\<forall>b\<in>set bs. b < 256"
  shows "a2b_loop (b64encode bs) S 0 h out = (0, out @ bs)"
  using assms
proof (induction bs arbitrary: S h out rule: b64encode.induct)
  case 1
  show ?case by (simp add: a2b_loop.simps)
next
  case (2 a)
  then show ?case by (simp add: a2b_loop_one)
next
  case (3 a b)
  then show ?case by (simp add: a2b_loop_two)
next
  case (4 a b c rest)
  then have "a < 256" "b < 256" "c < 256" by simp_all
  from a2b_loop_group [OF this, of "b64encode rest" S h out] obtain S' where
    "a2b_loop (b64encode (a # b # c # rest)) S 0 h out
       = a2b_loop (b64encode rest) S' 0 False (out @ [a, b, c])"
    by auto
  also have "\<dots> = (0, (out @ [a, b, c]) @ rest)"
    using "4.prems" by (intro "4.IH") simp
  finally show ?case by simp
qed

lemma a2b_base64_b64encode:
  "\<forall>b\<in>set bs. b < 256 \<Longrightarrow> a2b_base64 (b64encode bs) = Inr bs"
  by (simp add: a2b_base64_def a2b_loop_b64encode)

lemma pad_plain: "CHR ''='' \<noteq> newline" "\<not> isspace CHR ''=''"
  by (simp_all add: newline_def isspace_def)

lemma b64encode_plain:
  assumes "\<forall>b\<in>set bs. b < 256"
  shows "\<forall>c\<in>set (b64encode bs). c \<noteq> newline \<and> \<not> isspace c"
  using assms
proof (induction bs rule: b64encode.induct)
  case 1
  show ?case by simp
next
  case (2 a)
  then have "a < 256" by simp
  from sextets_less(1,5) [OF this this this] show ?case
    by (simp add: b64char_plain pad_plain)
next
  case (3 a b)
  then have "a < 256" "b < 256" by simp_all
  from sextets_less(1,2,6) [OF this this(2)] show ?case
    by (simp add: b64char_plain pad_plain)
next
  case (4 a b c rest)
  then have "a < 256" "b < 256" "c < 256" by simp_all
  from sextets_less(1-4) [OF this] "4.IH" "4.prems" show ?case
    by (simp add: b64char_plain)
qed

lemma strip_plain:
  assumes "s \<noteq> []" and "\<not> isspace (hd s)" and "\<not> isspace (last s)"
  shows "strip s = s"
proof -
  have "dropWhile isspace s = s"
    using assms(1,2) by (cases s) simp_all
  moreover have "dropWhile isspace (rev s) = rev s"
    using assms(1,3) by (cases "rev s") (simp_all add: last_rev [symmetric] del: last_rev)
  ultimately show ?thesis by (simp add: strip_def)
qed

lemma strip_frame:
  assumes "\<forall>b\<in>set bs. b < 256"
  shows "strip (''IMG:'' @ b64encode bs) = ''IMG:'' @ b64encode bs"
proof (rule strip_plain)
  show "''IMG:'' @ b64encode bs \<noteq> []" by simp
  show "\<not> isspace (hd (''IMG:'' @ b64encode bs))" by (simp add: isspace_def)
  show "\<not> isspace (last (''IMG:'' @ b64encode bs))"
  proof (cases "b64encode bs = []")
    case True
    then show ?thesis by (simp add: isspace_def)
  next
    case False
    then have "last (''IMG:'' @ b64encode bs) \<in> set (b64encode bs)" by simp
    with b64encode_plain [OF assms] show ?thesis by blast
  qed
qed

lemma receive_plain:
  assumes "\<forall>c\<in>set s. c \<noteq> newline"
  shows "receive s r = Inr (r\<lparr>buffer := buffer r @ s\<rparr>)"
  using assms by (induction s arbitrary: r) (simp_all add: on_char_def)

lemma receive_append:
  "receive (s @ t) r = (case receive s r of Inl e \<Rightarrow> Inl e | Inr r' \<Rightarrow> receive t r')"
  by (induction s arbitrary: r) (auto split: sum.splits)

lemma display_image_total: "\<exists>p. display_image img_bytes st = Inr p"
  by (simp add: display_image_ok)

lemma b64encode_nonempty: "bs \<noteq> [] \<Longrightarrow> b64encode bs \<noteq> []"
  by (induction bs rule: b64encode.induct) simp_all

section \<open>Lemmas about floats, the threshold evaluator and the formatter\<close>

declare bit_length.simps [simp del]
declare str_nat.simps [simp del]

lemma floor_numeral_div: "\<lfloor>numeral a / numeral b :: rat\<rfloor> = numeral a div numeral b"
  using floor_divide_of_int_eq [of "numeral a" "numeral b", where ?'a = rat] by simp

lemmas parse_simps = py_float_def parse_float_def float_strip_def float_space_def is_digit_def parse_decimal_def
  parse_exponent_def digits_val_def digit_val_def lower_def

lemma py_float_nan: "py_float ''nan'' = Inr NaN"
  by (simp add: parse_simps)

lemma py_float_inf: "py_float ''inf'' = Inr PInf"
  by (simp add: parse_simps)

lemma py_float_ERR: "py_float ''ERR'' = Inl ValueError"
  by (simp add: parse_simps)

text \<open>A string raises nothing but ValueError.\<close>

lemma py_float_error: "py_float x = Inl e \<Longrightarrow> e = ValueError"
  by (auto simp: py_float_def split: option.splits)

lemma float_ge_lt: "val \<noteq> NaN \<Longrightarrow> float_lt val t \<longleftrightarrow> \<not> float_ge val t"
  by (cases val) (auto simp: float_lt_def float_ge_def)

lemma float_ge_trans: "w \<le> d \<Longrightarrow> float_ge val d \<Longrightarrow> float_ge val w"
  by (cases val) (auto simp: float_ge_def)

lemma get_warning_level_parsed:
  assumes "py_float v = Inr f"
  shows "get_warning_level v (Some [w, d]) =
         Inr (if float_ge f d then 2 else if float_ge f w then 1 else 0)"
  using assms by (simp add: get_warning_level_def getitem_def)

lemma get_warning_level_unparsed:
  assumes "py_float v = Inl e"
  shows "get_warning_level v (Some [w, d]) = Inr 0"
  using assms py_float_error [OF assms] by (simp add: get_warning_level_def)

lemma round_half_even_near: "\<bar>q - of_int (round_half_even q)\<bar> \<le> 1 / 2"
proof -
  define f d where "f = \<lfloor>q\<rfloor>" and "d = q - of_int \<lfloor>q\<rfloor>"
  have d: "0 \<le> d" "d < 1" unfolding d_def by linarith+
  have q: "q = of_int f + d" by (simp add: f_def d_def)
  consider "d < 1 / 2" | "1 / 2 < d" | "d = 1 / 2" by linarith
  then show ?thesis
  proof cases
    case 1
    then have "round_half_even q = f" by (simp add: round_half_even_def Let_def f_def d_def)
    with 1 d q show ?thesis by simp
  next
    case 2
    then have "round_half_even q = f + 1" by (simp add: round_half_even_def Let_def f_def d_def)
    with 2 d q show ?thesis by simp
  next
    case 3
    then have "round_half_even q = f \<or> round_half_even q = f + 1"
      by (simp add: round_half_even_def Let_def f_def d_def)
    with 3 q show ?thesis by auto
  qed
qed

lemma round_half_even_nonneg: "0 \<le> q \<Longrightarrow> 0 \<le> round_half_even q"
  by (auto simp: round_half_even_def Let_def)

lemma truncate_near:
  fixes q :: rat
  defines "t \<equiv> (if 0 \<le> q then \<lfloor>q\<rfloor> else \<lceil>q\<rceil>)"
  shows "\<bar>of_int t :: rat\<bar> \<le> \<bar>q\<bar>" and "\<bar>q - of_int t\<bar> < 1"
proof -
  show "\<bar>of_int t :: rat\<bar> \<le> \<bar>q\<bar>"
  proof (cases "0 \<le> q")
    case True
    then have "0 \<le> \<lfloor>q\<rfloor>" by simp
    moreover have "of_int \<lfloor>q\<rfloor> \<le> q" by linarith
    ultimately show ?thesis using True by (simp add: t_def)
  next
    case False
    then have "\<lceil>q\<rceil> \<le> 0" by (simp add: ceiling_le_iff)
    then have "(of_int \<lceil>q\<rceil> :: rat) \<le> 0" by simp
    moreover have "q \<le> of_int \<lceil>q\<rceil>" by linarith
    ultimately show ?thesis using False by (simp add: t_def)
  qed
  show "\<bar>q - of_int t\<bar> < 1"
  proof (cases "0 \<le> q")
    case True
    then have "t = \<lfloor>q\<rfloor>" by (simp add: t_def)
    then show ?thesis by linarith
  next
    case False
    then have "t = \<lceil>q\<rceil>" by (simp add: t_def)
    then show ?thesis by linarith
  qed
qed

text \<open>The branches of the formatter.\<close>

lemma format_value_raw: "format_value fs v ''raw'' suffix = Inr (v @ suffix)"
  by (simp add: format_value_def)

lemma format_value_unparsed:
  assumes "py_float v = Inl e"
  shows "format_value fs v fmt suffix = Inr (v @ suffix)"
  using assms py_float_error [OF assms] by (simp add: format_value_def)

lemma format_value_fixed:
  assumes "py_float v = Inr f"
  shows "format_value fs v ''0f'' suffix = Inr (format_fixed 0 f @ suffix)"
    and "format_value fs v ''1f'' suffix = Inr (format_fixed 1 f @ suffix)"
  using assms by (simp_all add: format_value_def)

lemma format_value_int:
  assumes "py_float v = Inr f"
  shows "format_value fs v ''int'' suffix =
     (case f of Fin q \<Rightarrow> Inr (str_int (if 0 \<le> q then \<lfloor>q\<rfloor> else \<lceil>q\<rceil>) @ suffix)
      | NegZero \<Rightarrow> Inr (''0'' @ suffix)
      | NaN \<Rightarrow> Inr (v @ suffix)
      | _ \<Rightarrow> Inl OverflowError)"
  using assms
  by (cases f) (simp_all add: format_value_def py_int_def str_int_def str_nat.simps [of 0] digit_char_def)

lemma format_value_finite:
  assumes "py_float v = Inr f" and "finite_value f = Some q"
  shows "format_value fs v ''int'' suffix = Inr (str_int (if 0 \<le> q then \<lfloor>q\<rfloor> else \<lceil>q\<rceil>) @ suffix)"
    and "format_value fs v ''0f'' suffix =
         Inr ((if sign_bit f then ''-'' else []) @ str_nat (nat (round_half_even \<bar>q\<bar>)) @ suffix)"
proof -
  show "format_value fs v ''int'' suffix = Inr (str_int (if 0 \<le> q then \<lfloor>q\<rfloor> else \<lceil>q\<rceil>) @ suffix)"
    using assms(2) format_value_int [OF assms(1), of fs suffix]
    by (cases f) (simp_all add: finite_value_def str_int_def str_nat.simps [of 0] digit_char_def)
  show "format_value fs v ''0f'' suffix =
         Inr ((if sign_bit f then ''-'' else []) @ str_nat (nat (round_half_even \<bar>q\<bar>)) @ suffix)"
    using assms(2) format_value_fixed(1) [OF assms(1), of fs suffix]
    by (cases f)
      (simp_all add: finite_value_def format_fixed_def sign_bit_def Let_def round_half_even_def
        str_nat.simps [of 0] digit_char_def)
qed

text \<open>The binary exponent that the rounding uses is the right one.\<close>

lemma bit_length_upper: "n < 2 ^ bit_length n"
proof (induction n rule: bit_length.induct)
  case (1 n)
  show ?case
  proof (cases "n = 0")
    case True
    then show ?thesis by (simp add: bit_length.simps)
  next
    case False
    with 1 have "n div 2 < 2 ^ bit_length (n div 2)" by simp
    then have "n < 2 * 2 ^ bit_length (n div 2)" by linarith
    with False show ?thesis by (simp add: bit_length.simps [of n])
  qed
qed

lemma bit_length_lower: "0 < n \<Longrightarrow> 2 ^ (bit_length n - 1) \<le> n"
proof (induction n rule: bit_length.induct)
  case (1 n)
  then have n: "n \<noteq> 0" by simp
  show ?case
  proof (cases "n div 2 = 0")
    case True
    then have "bit_length n = 1" using n by (simp add: bit_length.simps [of n] bit_length.simps [of 0])
    with 1 show ?thesis by simp
  next
    case False
    with 1 n have "2 ^ (bit_length (n div 2) - 1) \<le> n div 2" by simp
    moreover have "0 < bit_length (n div 2)" using False by (simp add: bit_length.simps [of "n div 2"])
    ultimately have "2 ^ bit_length (n div 2) \<le> 2 * (n div 2)"
      by (cases "bit_length (n div 2)") simp_all
    then have "2 ^ bit_length (n div 2) \<le> n" by linarith
    with n show ?thesis by (simp add: bit_length.simps [of n])
  qed
qed

lemma ilog2_bounds:
  assumes "0 < a"
  shows "pow2 (ilog2 a) \<le> a" and "a < pow2 (ilog2 a + 1)"
proof -
  show "pow2 (ilog2 a) \<le> a"
  proof (cases "1 \<le> a")
    case True
    define n where "n = nat \<lfloor>a\<rfloor>"
    have n: "0 < n" "of_nat n \<le> a" using True by (simp_all add: n_def le_floor_iff)
    have "(2::nat) ^ (bit_length n - 1) \<le> n" using n(1) by (rule bit_length_lower)
    then have "(of_nat (2 ^ (bit_length n - 1)) :: rat) \<le> of_nat n" by (simp only: of_nat_le_iff)
    also have "\<dots> \<le> a" by (rule n(2))
    finally have "(2::rat) ^ (bit_length n - 1) \<le> a" by simp
    moreover have "0 < bit_length n" using n(1) by (simp add: bit_length.simps [of n])
    ultimately show ?thesis using True
      by (simp add: ilog2_def pow2_def flip: n_def) (simp add: nat_diff_distrib' of_nat_diff)
  next
    case False
    define m where "m = nat (\<lceil>1 / a\<rceil> - 1)"
    have inv: "1 < 1 / a" using False assms by simp
    then have c: "2 \<le> \<lceil>1 / a\<rceil>" by (simp add: le_ceiling_iff)
    have "0 \<le> \<lceil>1 / a\<rceil> - 1" using c by linarith
    then have "(of_nat m :: rat) = of_int (\<lceil>1 / a\<rceil> - 1)"
      unfolding m_def by (rule of_nat_nat)
    then have mm: "(of_nat m :: rat) = of_int \<lceil>1 / a\<rceil> - 1" by simp
    have "1 / a \<le> of_int \<lceil>1 / a\<rceil>" by linarith
    then have "1 / a \<le> of_nat m + 1" by (simp add: mm)
    moreover have "m < 2 ^ bit_length m" by (rule bit_length_upper)
    then have "m + 1 \<le> 2 ^ bit_length m" by simp
    then have "(of_nat (m + 1) :: rat) \<le> of_nat (2 ^ bit_length m)" by (simp only: of_nat_le_iff)
    moreover have "(of_nat (m + 1) :: rat) = of_nat m + 1" by simp
    ultimately have "1 / a \<le> of_nat (2 ^ bit_length m)" by (simp only: order_trans)
    then have "1 / a \<le> 2 ^ bit_length m" by simp
    then have "1 / 2 ^ bit_length m \<le> a"
      using assms by (simp add: field_simps)
    moreover have "m \<noteq> 0" using c unfolding m_def by linarith
    then have "0 < bit_length m" by (simp add: bit_length.simps [of m])
    ultimately show ?thesis using False
      by (simp add: ilog2_def pow2_def flip: m_def)
  qed
  show "a < pow2 (ilog2 a + 1)"
  proof (cases "1 \<le> a")
    case True
    define n where "n = nat \<lfloor>a\<rfloor>"
    have n: "0 < n" "a < of_nat n + 1" using True by (simp_all add: n_def le_floor_iff) linarith
    have "n < 2 ^ bit_length n" by (rule bit_length_upper)
    then have "n + 1 \<le> 2 ^ bit_length n" by simp
    then have "(of_nat (n + 1) :: rat) \<le> of_nat (2 ^ bit_length n)" by (simp only: of_nat_le_iff)
    moreover have "a < of_nat (n + 1)" using n(2) by simp
    ultimately have "a < of_nat (2 ^ bit_length n)" by (rule less_le_trans [rotated])
    then have "a < 2 ^ bit_length n" by simp
    then show ?thesis using True
      by (simp add: ilog2_def pow2_def flip: n_def)
  next
    case False
    define m where "m = nat (\<lceil>1 / a\<rceil> - 1)"
    have inv: "1 < 1 / a" using False assms by simp
    then have c: "2 \<le> \<lceil>1 / a\<rceil>" by (simp add: le_ceiling_iff)
    have m0: "0 < m" using c unfolding m_def by linarith
    have "0 \<le> \<lceil>1 / a\<rceil> - 1" using c by linarith
    then have "(of_nat m :: rat) = of_int (\<lceil>1 / a\<rceil> - 1)"
      unfolding m_def by (rule of_nat_nat)
    then have mm: "(of_nat m :: rat) = of_int \<lceil>1 / a\<rceil> - 1" by simp
    have "of_int \<lceil>1 / a\<rceil> < 1 / a + 1" by linarith
    then have lt: "of_nat m < 1 / a" by (simp add: mm)
    have "(2::nat) ^ (bit_length m - 1) \<le> m" using m0 by (rule bit_length_lower)
    then have "(of_nat (2 ^ (bit_length m - 1)) :: rat) \<le> of_nat m" by (simp only: of_nat_le_iff)
    also have "\<dots> < 1 / a" by (rule lt)
    finally have "(2::rat) ^ (bit_length m - 1) < 1 / a" by simp
    then have a: "a < 1 / 2 ^ (bit_length m - 1)"
      using assms by (simp add: field_simps)
    have b: "0 < bit_length m" using m0 by (simp add: bit_length.simps [of m])
    show ?thesis
    proof (cases "bit_length m = 1")
      case True
      with a False show ?thesis by (simp add: ilog2_def pow2_def flip: m_def)
    next
      case False
      with b have "1 < bit_length m" by simp
      then have "nat (int (bit_length m) - 1) = bit_length m - 1" by simp
      with a \<open>\<not> 1 \<le> a\<close> \<open>1 < bit_length m\<close> show ?thesis
        by (simp add: ilog2_def pow2_def flip: m_def)
    qed
  qed
qed

text \<open>Some values of the parser, computed.\<close>

lemma py_float_2_9: "py_float ''2.9'' = Inr (Fin (6530219459687219 / 2251799813685248))"
proof -
  have "ilog2 (29 / 10) = 1"
    by (simp add: ilog2_def floor_numeral_div bit_length.simps)
  then have "round_double False (29 / 10) = Fin (6530219459687219 / 2251799813685248)"
    by (simp add: round_double_def pow2_def Let_def round_half_even_def floor_numeral_div)
  then show ?thesis
    by (simp add: parse_simps pow10_def)
qed

lemma py_float_55_7: "py_float ''55.7'' = Inr (Fin (3919539050695885 / 70368744177664))"
proof -
  have "ilog2 (557 / 10) = 5"
    by (simp add: ilog2_def floor_numeral_div bit_length.simps)
  then have "round_double False (557 / 10) = Fin (3919539050695885 / 70368744177664)"
    by (simp add: round_double_def pow2_def Let_def round_half_even_def floor_numeral_div)
  then show ?thesis
    by (simp add: parse_simps pow10_def)
qed

lemma py_float_1000: "py_float ''1000'' = Inr (Fin 1000)"
proof -
  have "ilog2 1000 = 9"
    by (simp add: ilog2_def bit_length.simps)
  then have "round_double False 1000 = Fin 1000"
    by (simp add: round_double_def pow2_def Let_def round_half_even_def floor_numeral_div)
  then show ?thesis
    by (simp add: parse_simps pow10_def)
qed

lemma py_float_2000: "py_float ''2000'' = Inr (Fin 2000)"
proof -
  have "ilog2 2000 = 10"
    by (simp add: ilog2_def bit_length.simps)
  then have "round_double False 2000 = Fin 2000"
    by (simp add: round_double_def pow2_def Let_def round_half_even_def floor_numeral_div)
  then show ?thesis
    by (simp add: parse_simps pow10_def)
qed

lemma py_float_2500: "py_float ''2500'' = Inr (Fin 2500)"
proof -
  have "ilog2 2500 = 11"
    by (simp add: ilog2_def bit_length.simps)
  then have "round_double False 2500 = Fin 2500"
    by (simp add: round_double_def pow2_def Let_def round_half_even_def floor_numeral_div)
  then show ?thesis
    by (simp add: parse_simps pow10_def)
qed

lemma co2_2500_danger: "get_warning_level ''2500'' (Some [1000, 2000]) = Inr 2"
  using get_warning_level_parsed [OF py_float_2500, of 1000 2000]
  by (simp add: float_ge_def)

lemma co2_2500_text: "format_value fs ''2500'' ''int'' [] = Inr ''2500''"
  using format_value_int [OF py_float_2500, of fs "[]"]
  by (simp add: str_int_def str_nat.simps digit_char_def)

text \<open>The sentinel of the sensor fetch falls back to the text itself, whatever the kind.\<close>

lemma format_value_ERR: "format_value fs ''ERR'' fmt suffix = Inr (''ERR'' @ suffix)"
  using py_float_ERR by (rule format_value_unparsed)

section \<open>The claims\<close>

subsection \<open>Bitmap packer and panel paint routine\<close>

text \<open>
  Claim C2. For a canvas whose size is the configured width \<open>w\<close> and height \<open>h\<close>, the
  packer returns (it does not raise) a sequence of \<open>h * ceil(w/8)\<close> bytes, each below
  256, laid out row by row: byte \<open>k\<close> of row \<open>y\<close> holds columns \<open>8k .. 8k+7\<close>, bit
  \<open>7 - j\<close> of it is set exactly when column \<open>8k + j\<close> lies inside the canvas and that
  pixel is non-zero. So bit 7 is the leftmost column of the group, bit 0 the rightmost,
  and the bits of columns beyond the width are 0.
\<close>

theorem packer_layout:
  assumes "iw img = width cfg" and "ih img = height cfg"
  shows "\<exists>bs. image_to_badge_bytes cfg img = Inr bs
     \<and> length bs = height cfg * ((width cfg + 7) div 8)
     \<and> (\<forall>y<height cfg. \<forall>k<(width cfg + 7) div 8. \<forall>j<8.
          bit (bs ! (y * ((width cfg + 7) div 8) + k)) (7 - j)
            \<longleftrightarrow> (8 * k + j < width cfg \<and> pix img (8 * k + j) y \<noteq> 0))
     \<and> (\<forall>b\<in>set bs. b < 256)"
  using assms by (rule packer_bytes)

theorem packer_layout_witness:
  "iw \<lparr>iw = 10, ih = 2, pix = (\<lambda>x y. if x = 0 \<or> x = 9 then 255 else 0)\<rparr>
      = width \<lparr>width = 10, height = 2, cols = 1, rows = 1, icon_size = 0\<rparr>
   \<and> ih \<lparr>iw = 10, ih = 2, pix = (\<lambda>x y. if x = 0 \<or> x = 9 then 255 else 0)\<rparr>
      = height \<lparr>width = 10, height = 2, cols = 1, rows = 1, icon_size = 0\<rparr>
   \<and> (\<exists>bs. image_to_badge_bytes \<lparr>width = 10, height = 2, cols = 1, rows = 1, icon_size = 0\<rparr>
              \<lparr>iw = 10, ih = 2, pix = (\<lambda>x y. if x = 0 \<or> x = 9 then 255 else 0)\<rparr> = Inr bs
         \<and> length bs = 4 \<and> bit (bs ! 0) 7 \<and> \<not> bit (bs ! 0) 6 \<and> bit (bs ! 1) 6
         \<and> \<not> bit (bs ! 1) 5)"
proof -
  let ?img = "\<lparr>iw = 10, ih = 2, pix = (\<lambda>x y. if x = 0 \<or> x = 9 then 255 else (0::nat))\<rparr>"
  let ?cfg = "\<lparr>width = 10, height = 2, cols = 1, rows = 1, icon_size = 0\<rparr>"
  have h1: "iw ?img = width ?cfg" and h2: "ih ?img = height ?cfg" by simp_all
  from packer_layout [OF h1 h2] obtain bs where
    bs: "image_to_badge_bytes ?cfg ?img = Inr bs" "length bs = 2 * 2"
    and bits: "\<And>y k j. y < 2 \<Longrightarrow> k < 2 \<Longrightarrow> j < 8 \<Longrightarrow>
       bit (bs ! (y * 2 + k)) (7 - j) \<longleftrightarrow> (8 * k + j < 10 \<and> pix ?img (8 * k + j) y \<noteq> 0)"
    by auto
  from bits [of 0 0 0] bits [of 0 0 1] bits [of 0 1 1] bits [of 0 1 2] bs
  show ?thesis by auto
qed

text \<open>
  Claim C1. For every canvas of the panel's size, 296 by 128, the packer returns bytes
  that the receiver's paint routine turns back into the canvas: the routine succeeds,
  and the panel then shows pen 0 (black) exactly at the pixels where the canvas is 0,
  and pen 15 (white) at the others. A clear bit is a painted pixel.
\<close>

theorem pack_unpack_roundtrip:
  assumes "iw img = 296" and "ih img = 128"
  shows "\<exists>bs st'. image_to_badge_bytes DISPLAY_CONFIG img = Inr bs
      \<and> display_image bs st = Inr st'
      \<and> (\<forall>x<296. \<forall>y<128.
            (panel (dsp st') x y = 0 \<longleftrightarrow> pix img x y = 0)
          \<and> (panel (dsp st') x y = 15 \<longleftrightarrow> pix img x y \<noteq> 0))"
proof -
  have cfg: "width DISPLAY_CONFIG = 296" "height DISPLAY_CONFIG = 128"
    by (simp_all add: DISPLAY_CONFIG_def)
  from packer_bytes [of img DISPLAY_CONFIG] assms obtain bs where
    bs: "image_to_badge_bytes DISPLAY_CONFIG img = Inr bs"
    and len: "length bs = 128 * 37"
    and bits: "\<And>y k j. y < 128 \<Longrightarrow> k < 37 \<Longrightarrow> j < 8 \<Longrightarrow>
       bit (bs ! (y * 37 + k)) (7 - j) \<longleftrightarrow> (8 * k + j < 296 \<and> pix img (8 * k + j) y \<noteq> 0)"
    by (auto simp: cfg)
  obtain st' where st': "display_image bs st = Inr st'"
    and pan: "panel (dsp st') = unpacked bs"
    by (cases "FULL_REFRESH_INTERVAL \<le> update_count st + 1")
       (simp_all add: display_image_ok update_def set_update_speed_def painted_def)
  have "unpacked bs x y = (if pix img x y = 0 then 0 else 15)" if "x < 296" "y < 128" for x y
  proof -
    have k: "x div 8 < 37" "x mod 8 < 8" using that by auto
    have "y * 37 + x div 8 < 128 * 37"
      using row_index_less [of "x div 8" 37 y 128] k that by simp
    moreover have "bit (bs ! (y * 37 + x div 8)) (7 - x mod 8) \<longleftrightarrow> pix img x y \<noteq> 0"
      using bits [OF that(2) k] that by simp
    ultimately show ?thesis
      using that by (simp add: unpacked_def WIDTH_def HEIGHT_def len)
  qed
  then show ?thesis using bs st' pan by auto
qed

theorem pack_unpack_roundtrip_witness:
  "iw \<lparr>iw = 296, ih = 128, pix = (\<lambda>x y. if x = y then 0 else 255)\<rparr> = 296
   \<and> ih \<lparr>iw = 296, ih = 128, pix = (\<lambda>x y. if x = y then 0 else 255)\<rparr> = 128
   \<and> (\<exists>bs st'. image_to_badge_bytes DISPLAY_CONFIG
                  \<lparr>iw = 296, ih = 128, pix = (\<lambda>x y. if x = y then 0 else 255)\<rparr> = Inr bs
         \<and> display_image bs startup = Inr st'
         \<and> panel (dsp st') 5 5 = 0 \<and> panel (dsp st') 6 5 = 15)"
proof -
  let ?img = "\<lparr>iw = 296, ih = 128, pix = (\<lambda>x y. if x = y then 0 else (255::nat))\<rparr>"
  have h1: "iw ?img = 296" and h2: "ih ?img = 128" by simp_all
  from pack_unpack_roundtrip [OF h1 h2, of "startup"] obtain bs st' where
    r: "image_to_badge_bytes DISPLAY_CONFIG ?img = Inr bs"
       "display_image bs startup = Inr st'"
    and p: "\<And>x y. x < 296 \<Longrightarrow> y < 128 \<Longrightarrow>
          (panel (dsp st') x y = 0 \<longleftrightarrow> pix ?img x y = 0)
        \<and> (panel (dsp st') x y = 15 \<longleftrightarrow> pix ?img x y \<noteq> 0)"
    by blast
  from p [of 5 5] p [of 6 5] r show ?thesis by auto
qed

text \<open>
  Claim C9. For a byte sequence of any length the paint routine returns: it reads no
  byte outside the sequence and writes no pixel outside the panel. The frame buffer and
  the panel then hold pen 0 exactly at the pixels of the panel whose byte, number
  \<open>y * 37 + x div 8\<close>, exists in the sequence and has the pixel's bit clear, and pen 15
  everywhere else, so a short sequence paints only the bytes it has. The bytes after
  the first \<open>128 * 37\<close> do not matter.
\<close>

theorem paint_any_length:
  "(\<exists>st'. display_image img_bytes st = Inr st'
        \<and> fb (dsp st') = unpacked img_bytes \<and> panel (dsp st') = unpacked img_bytes)
   \<and> display_image img_bytes st = display_image (take (HEIGHT * ((WIDTH + 7) div 8)) img_bytes) st"
proof -
  have "unpacked (take (HEIGHT * ((WIDTH + 7) div 8)) img_bytes) = unpacked img_bytes"
  proof (intro ext)
    fix x y
    have "y * ((WIDTH + 7) div 8) + x div 8 < HEIGHT * ((WIDTH + 7) div 8)"
      if "x < WIDTH" "y < HEIGHT"
    proof -
      have "x div 8 < (WIDTH + 7) div 8" using that by (simp add: WIDTH_def)
      then show ?thesis using row_index_less [of "x div 8" "(WIDTH + 7) div 8" y HEIGHT] that
        by (simp add: mult.commute)
    qed
    then show "unpacked (take (HEIGHT * ((WIDTH + 7) div 8)) img_bytes) x y = unpacked img_bytes x y"
      by (auto simp: unpacked_def)
  qed
  then have "painted (take (HEIGHT * ((WIDTH + 7) div 8)) img_bytes) = painted img_bytes"
    by (intro ext) (simp add: painted_def)
  then show ?thesis
    by (simp add: display_image_ok update_def set_update_speed_def painted_def)
qed

theorem paint_any_length_witness:
  "(\<exists>st'. display_image [0, 255, 127] startup = Inr st'
       \<and> fb (dsp st') 7 0 = 0 \<and> fb (dsp st') 8 0 = 15 \<and> fb (dsp st') 16 0 = 0
       \<and> fb (dsp st') 17 0 = 15 \<and> fb (dsp st') 24 0 = 15 \<and> fb (dsp st') 0 1 = 15)"
proof -
  from paint_any_length [of "[0, 255, 127]" "startup"] obtain st' where
    "display_image [0, 255, 127] startup = Inr st'"
    "fb (dsp st') = unpacked [0, 255, 127]"
    by (elim conjE exE) blast
  moreover have "unpacked [0, 255, 127] 7 0 = 0" "unpacked [0, 255, 127] 8 0 = 15"
    "unpacked [0, 255, 127] 16 0 = 0" "unpacked [0, 255, 127] 17 0 = 15"
    "unpacked [0, 255, 127] 24 0 = 15" "unpacked [0, 255, 127] 0 1 = 15"
    by (simp_all add: unpacked_def WIDTH_def HEIGHT_def bit_Suc_0_iff)
  ultimately show ?thesis by simp
qed

subsection \<open>Refresh counter\<close>

text \<open>
  Claim C7. The full-refresh interval is 60. Starting from a counter of 0 and the fast
  update speed, every one of the first 59 paints of a run of frames increments the
  counter and refreshes the panel in fast mode; the 60th refreshes it in normal (full)
  mode, resets the counter to 0 and leaves the speed fast; the 61st refreshes in fast
  mode again. After every paint, from any state, the counter is below the interval.
\<close>

theorem refresh_cycle:
  assumes "update_count st = 0" and "speed (dsp st) = UPDATE_FAST" and "length frames = 61"
  shows "FULL_REFRESH_INTERVAL = 60
    \<and> (\<forall>k<60. \<exists>s. paint_all (take k frames) st = Inr s \<and> update_count s = k
          \<and> refreshes (dsp s) = refreshes (dsp st) @ replicate k UPDATE_FAST)
    \<and> (\<exists>s. paint_all (take 60 frames) st = Inr s \<and> update_count s = 0
          \<and> speed (dsp s) = UPDATE_FAST
          \<and> refreshes (dsp s) = refreshes (dsp st) @ replicate 59 UPDATE_FAST @ [UPDATE_NORMAL])
    \<and> (\<exists>s. paint_all frames st = Inr s \<and> update_count s = 1
          \<and> refreshes (dsp s) =
              refreshes (dsp st) @ replicate 59 UPDATE_FAST @ [UPDATE_NORMAL, UPDATE_FAST])
    \<and> (\<forall>img_bytes s. \<exists>s'. display_image img_bytes s = Inr s'
          \<and> update_count s' < FULL_REFRESH_INTERVAL)"
proof -
  have fast: "\<exists>s. paint_all (take k frames) st = Inr s \<and> update_count s = k
      \<and> speed (dsp s) = UPDATE_FAST
      \<and> refreshes (dsp s) = refreshes (dsp st) @ replicate k UPDATE_FAST" if "k < 60" for k
  proof -
    have "update_count st + length (take k frames) < FULL_REFRESH_INTERVAL"
      using that assms by (simp add: FULL_REFRESH_INTERVAL_def)
    from paint_all_fast [OF this] show ?thesis
      using that assms by (simp add: min_def)
  qed
  from fast [of 59] obtain s59 where
    s59: "paint_all (take 59 frames) st = Inr s59" "update_count s59 = 59"
         "speed (dsp s59) = UPDATE_FAST"
         "refreshes (dsp s59) = refreshes (dsp st) @ replicate 59 UPDATE_FAST"
    by auto
  have t60: "take 60 frames = take 59 frames @ [frames ! 59]"
    using assms(3) by (simp add: take_Suc_conv_app_nth [of 59 frames, simplified])
  have "FULL_REFRESH_INTERVAL \<le> update_count s59 + 1"
    using s59 by (simp add: FULL_REFRESH_INTERVAL_def)
  from display_image_full [OF this, of "frames ! 59"] obtain s60 where
    s60: "display_image (frames ! 59) s59 = Inr s60" "update_count s60 = 0"
         "speed (dsp s60) = UPDATE_FAST"
         "refreshes (dsp s60) = refreshes (dsp s59) @ [UPDATE_NORMAL]"
    by blast
  have p60: "paint_all (take 60 frames) st = Inr s60"
    using s59 s60 by (simp add: t60 paint_all_append)
  have t61: "frames = take 60 frames @ [frames ! 60]"
    using assms(3) take_Suc_conv_app_nth [of 60 frames] by simp
  have "update_count s60 + 1 < FULL_REFRESH_INTERVAL"
    using s60 by (simp add: FULL_REFRESH_INTERVAL_def)
  from display_image_fast [OF this, of "frames ! 60"] obtain s61 where
    s61: "display_image (frames ! 60) s60 = Inr s61" "update_count s61 = update_count s60 + 1"
         "refreshes (dsp s61) = refreshes (dsp s60) @ [speed (dsp s60)]"
    by blast
  have "paint_all (take 60 frames @ [frames ! 60]) st = Inr s61"
    using p60 s61 by (simp add: paint_all_append)
  then have p61: "paint_all frames st = Inr s61"
    using t61 by simp
  have inv: "\<exists>s'. display_image img_bytes s = Inr s' \<and> update_count s' < FULL_REFRESH_INTERVAL"
    for img_bytes s
    by (simp add: display_image_ok FULL_REFRESH_INTERVAL_def)
  show ?thesis
    using fast p60 s60 s59 p61 s61 inv
    by (auto simp: FULL_REFRESH_INTERVAL_def)
qed

theorem refresh_cycle_witness:
  "update_count startup = 0
   \<and> speed (dsp startup) = UPDATE_FAST
   \<and> length (replicate 61 ([]::nat list)) = 61
   \<and> (\<exists>s. paint_all (take 60 (replicate 61 [])) startup = Inr s
         \<and> update_count s = 0)
   \<and> (\<exists>s. paint_all (replicate 61 []) startup = Inr s
         \<and> update_count s = 1)"
proof -
  let ?st = "startup"
  have h1: "update_count ?st = 0" and h2: "speed (dsp ?st) = UPDATE_FAST"
    and h3: "length (replicate 61 ([]::nat list)) = 61"
    by (simp_all add: startup_def show_waiting_screen_def update_def text_at_def set_font_def
        set_pen_def clear_def set_update_speed_def)
  from refresh_cycle [OF h1 h2 h3] h1 h2 h3 show ?thesis by blast
qed

subsection \<open>Serial framing\<close>

text \<open>
  Claim C3. For every sequence of bytes (values 0 to 255) the transmitter writes exactly
  \<open>IMG:\<close>, the base64 text of the bytes and one newline; the receiver's decoding of the
  payload of that line (the line stripped, without its first four characters) returns the
  bytes; and a receiver with an empty line buffer that reads the frame paints exactly
  these bytes and prints that the image is displayed.
\<close>

theorem frame_roundtrip:
  assumes "\<forall>b\<in>set img_bytes. b < 256"
  shows "send_bytes ser img_bytes = ser @ ''IMG:'' @ b64encode img_bytes @ [newline]
    \<and> a2b_base64 (drop 4 (strip (''IMG:'' @ b64encode img_bytes))) = Inr img_bytes
    \<and> (\<exists>p. display_image img_bytes (pnt r) = Inr p
          \<and> receive (send_bytes [] img_bytes) (r\<lparr>buffer := []\<rparr>)
              = Inr (r\<lparr>pnt := p, buffer := [],
                       printed_lines := printed_lines r @ [Image_displayed]\<rparr>))"
proof -
  define line where "line = ''IMG:'' @ b64encode img_bytes"
  have strip: "strip line = line"
    unfolding line_def using assms by (rule strip_frame)
  have "drop 4 line = b64encode img_bytes" by (simp add: line_def)
  then have dec: "a2b_base64 (drop 4 (strip line)) = Inr img_bytes"
    unfolding strip using assms by (simp only: a2b_base64_b64encode)
  obtain p where p: "display_image img_bytes (pnt r) = Inr p"
    using display_image_total by blast
  have "\<forall>c\<in>set line. c \<noteq> newline"
    using b64encode_plain [OF assms] by (auto simp: newline_def line_def)
  then have "receive line (r\<lparr>buffer := []\<rparr>) = Inr (r\<lparr>buffer := line\<rparr>)"
    by (simp add: receive_plain)
  moreover have "startswith (strip line) ''IMG:''"
    unfolding strip by (simp add: startswith_def line_def)
  then have "on_newline (r\<lparr>buffer := line\<rparr>)
      = Inr (r\<lparr>pnt := p, buffer := [], printed_lines := printed_lines r @ [Image_displayed]\<rparr>)"
    using dec p by (simp add: on_newline_def Let_def)
  ultimately have "receive (line @ [newline]) (r\<lparr>buffer := []\<rparr>)
      = Inr (r\<lparr>pnt := p, buffer := [], printed_lines := printed_lines r @ [Image_displayed]\<rparr>)"
    by (simp add: receive_append on_char_def)
  moreover have "send_bytes [] img_bytes = line @ [newline]"
    by (simp add: send_bytes_def line_def)
  ultimately show ?thesis
    using dec p by (simp add: send_bytes_def line_def)
qed

theorem frame_roundtrip_witness:
  "(\<forall>b\<in>set [0, 127, 128, 255::nat]. b < 256) = True
   \<and> send_bytes [] [0, 127, 128, 255] = ''IMG:AH+A/w=='' @ [newline]
   \<and> a2b_base64 (drop 4 (strip ''IMG:AH+A/w=='')) = Inr [0, 127, 128, 255]"
proof -
  have h: "\<forall>b\<in>set [0, 127, 128, 255::nat]. b < 256" by simp
  have e: "b64encode [0, 127, 128, 255] = ''AH+A/w==''"
    by (simp add: b64char_def b64_table_def)
  from frame_roundtrip [OF h, of "[]" receiver_start] h show ?thesis
    by (simp add: e b64char_def b64_table_def)
qed

text \<open>
  Claim C6, as stated, fails: a payload cut at a multiple of four characters is still
  valid base64. The line \<open>IMG:AAAA\<close> carries the first four characters of the frame of
  an all-black canvas (4736 zero bytes); the receiver decodes it to three bytes, paints
  them, and the refresh counter and the panel change.
\<close>

theorem truncated_frame_painted:
  "take 4 (b64encode (replicate 4736 0)) = ''AAAA'' \<and> b64encode (replicate 4736 0) \<noteq> ''AAAA''

   \<and> startswith ''IMG:AAAA'' ''IMG:''
   \<and> (\<exists>r'. on_char newline (receiver_start\<lparr>buffer := ''IMG:AAAA''\<rparr>) = Inr r'
         \<and> update_count (pnt receiver_start) = 0 \<and> update_count (pnt r') = 1
         \<and> panel (dsp (pnt receiver_start)) 0 0 = 15 \<and> panel (dsp (pnt r')) 0 0 = 0
         \<and> printed_lines r' = [Image_displayed])"
proof -
  have "replicate (3 + 4733) (0::nat) = replicate 3 0 @ replicate 4733 0"
    by (rule replicate_add)
  then have rep: "replicate 4736 (0::nat) = 0 # 0 # 0 # replicate 4733 0"
    by (simp add: numeral_3_eq_3)
  have "replicate 4733 (0::nat) \<noteq> []" by simp
  then have "b64encode (replicate 4733 0) \<noteq> []" by (rule b64encode_nonempty)
  then have pre: "take 4 (b64encode (replicate 4736 0)) = ''AAAA''"
    "b64encode (replicate 4736 0) \<noteq> ''AAAA''"
    unfolding rep by (simp_all add: b64char_def b64_table_def)
  have strip: "strip ''IMG:AAAA'' = ''IMG:AAAA''"
    by (simp add: strip_def isspace_def)
  have dec: "a2b_base64 ''AAAA'' = Inr [0, 0, 0]"
    by (simp add: a2b_base64_def a2b_loop.simps sextet_def shift_in_def)
  have start: "update_count (pnt receiver_start) = 0" "panel (dsp (pnt receiver_start)) 0 0 = 15"
    by (simp_all add: receiver_start_def startup_def show_waiting_screen_def update_def
        text_at_def set_font_def set_pen_def clear_def set_update_speed_def fresh_display_def)
  have paint: "display_image [0, 0, 0] startup
      = Inr \<lparr>dsp = update (painted [0, 0, 0] (dsp startup)), update_count = 1\<rparr>"
    using start(1) by (simp add: display_image_ok FULL_REFRESH_INTERVAL_def receiver_start_def)
  have "unpacked [0, 0, 0] 0 0 = 0"
    by (simp add: unpacked_def WIDTH_def HEIGHT_def)
  then show ?thesis
    using pre start
    by (simp add: on_char_def on_newline_def strip startswith_def dec paint Let_def
        update_def painted_def receiver_start_def)
qed

text \<open>
  Claim C6, amended. For every line that begins with \<open>IMG:\<close> and whose payload the
  decoder rejects, processing the line raises nothing, clears the line buffer and prints
  the error; the refresh counter, the display and the panel stay as they were.
\<close>

theorem undecodable_frame_dropped:
  assumes "startswith (strip (buffer r)) ''IMG:''"
    and "a2b_base64 (drop 4 (strip (buffer r))) = Inl e"
  shows "on_char newline r = Inr (r\<lparr>buffer := [], printed_lines := printed_lines r @ [Error e]\<rparr>)"
  using assms by (simp add: on_char_def on_newline_def Let_def)

theorem undecodable_frame_dropped_witness:
  "startswith (strip (buffer (receiver_start\<lparr>buffer := ''IMG:TWF''\<rparr>))) ''IMG:''
   \<and> a2b_base64 (drop 4 (strip (buffer (receiver_start\<lparr>buffer := ''IMG:TWF''\<rparr>)))) = Inl ValueError
   \<and> on_char newline (receiver_start\<lparr>buffer := ''IMG:TWF''\<rparr>)
       = Inr (receiver_start\<lparr>buffer := [], printed_lines := [Error ValueError]\<rparr>)"
proof -
  let ?r = "receiver_start\<lparr>buffer := ''IMG:TWF''\<rparr>"
  have strip: "strip ''IMG:TWF'' = ''IMG:TWF''"
    by (simp add: strip_def isspace_def)
  have h1: "startswith (strip (buffer ?r)) ''IMG:''"
    by (simp add: strip startswith_def)
  have h2: "a2b_base64 (drop 4 (strip (buffer ?r))) = Inl ValueError"
    by (simp add: strip a2b_base64_def a2b_loop.simps sextet_def shift_in_def)
  from undecodable_frame_dropped [OF h1 h2] h1 h2 show ?thesis
    by (simp add: receiver_start_def)
qed

subsection \<open>Threshold evaluator\<close>

text \<open>
  Claim C4, as stated, fails at a value that parses to NaN: \<open>"nan"\<close> parses as a float,
  the thresholds are present and \<open>nan < 1000\<close> is false, yet the level is 0 (none).
\<close>

theorem nan_level_is_none:
  "py_float ''nan'' = Inr NaN \<and> float_lt NaN 1000 = False
   \<and> get_warning_level ''nan'' (Some [1000, 2000]) = Inr 0"
  by (simp add: py_float_nan float_lt_def get_warning_level_def getitem_def float_ge_def)

text \<open>
  Claim C4, amended. For every value \<open>v\<close> and thresholds \<open>[w, d]\<close> with \<open>w \<le> d\<close>: the
  level is 2 (danger) iff \<open>v\<close> parses as a float and \<open>v \<ge> d\<close>; 1 (warning) iff it parses
  and \<open>w \<le> v < d\<close>; 0 (none) iff it parses and is below \<open>w\<close> or NaN, or does not parse.
  Without thresholds the level is 0. A value on a threshold gets the higher level, and
  no exception escapes.
\<close>

theorem warning_tiers:
  assumes "w \<le> d"
  shows "(get_warning_level v (Some [w, d]) = Inr 2 \<longleftrightarrow> (\<exists>f. py_float v = Inr f \<and> float_ge f d))
    \<and> (get_warning_level v (Some [w, d]) = Inr 1
          \<longleftrightarrow> (\<exists>f. py_float v = Inr f \<and> float_ge f w \<and> float_lt f d))
    \<and> (get_warning_level v (Some [w, d]) = Inr 0
          \<longleftrightarrow> (\<exists>f. py_float v = Inr f \<and> (float_lt f w \<or> f = NaN)) \<or> py_float v = Inl ValueError)
    \<and> get_warning_level v None = Inr 0 \<and> get_warning_level v (Some []) = Inr 0
    \<and> (\<exists>n. get_warning_level v (Some [w, d]) = Inr n \<and> n \<le> 2)"
proof (cases "py_float v")
  case (Inl e)
  then have "e = ValueError" by (rule py_float_error)
  with Inl show ?thesis
    by (simp add: get_warning_level_unparsed) (simp add: get_warning_level_def)
next
  case (Inr f)
  have lvl: "get_warning_level v (Some [w, d]) =
      Inr (if float_ge f d then 2 else if float_ge f w then 1 else 0)"
    using Inr by (rule get_warning_level_parsed)
  have nan: "f = NaN \<Longrightarrow> \<not> float_ge f w \<and> \<not> float_ge f d \<and> \<not> float_lt f d \<and> \<not> float_lt f w"
    by (simp add: float_ge_def float_lt_def)
  have dw: "float_ge f d \<Longrightarrow> float_ge f w"
    using assms by (rule float_ge_trans)
  have lt: "f \<noteq> NaN \<Longrightarrow> float_lt f t \<longleftrightarrow> \<not> float_ge f t" for t
    by (rule float_ge_lt)
  have none: "get_warning_level v None = Inr 0 \<and> get_warning_level v (Some []) = Inr 0"
    by (simp add: get_warning_level_def)
  show ?thesis
  proof (cases "f = NaN")
    case True
    with nan lvl Inr none show ?thesis by simp
  next
    case False
    with lt dw lvl Inr none show ?thesis by auto
  qed
qed

theorem warning_tiers_witness:
  "(1000::rat) \<le> 2000
   \<and> get_warning_level ''1000'' (Some [1000, 2000]) = Inr 1
   \<and> get_warning_level ''2000'' (Some [1000, 2000]) = Inr 2
   \<and> get_warning_level ''ERR'' (Some [1000, 2000]) = Inr 0"
proof -
  have h: "(1000::rat) \<le> 2000" by simp
  have f1: "\<exists>f. py_float ''1000'' = Inr f \<and> float_ge f 1000 \<and> float_lt f 2000"
    by (simp add: py_float_1000 float_ge_def float_lt_def)
  have f2: "\<exists>f. py_float ''2000'' = Inr f \<and> float_ge f 2000"
    by (simp add: py_float_2000 float_ge_def)
  have f3: "(\<exists>f. py_float ''ERR'' = Inr f \<and> (float_lt f 1000 \<or> f = NaN))
      \<or> py_float ''ERR'' = Inl ValueError"
    by (simp add: py_float_ERR)
  have "get_warning_level ''1000'' (Some [1000, 2000]) = Inr 1"
    using warning_tiers [OF h, of "''1000''", THEN conjunct2, THEN conjunct1] f1 by (rule iffD2)
  moreover have "get_warning_level ''2000'' (Some [1000, 2000]) = Inr 2"
    using warning_tiers [OF h, of "''2000''", THEN conjunct1] f2 by (rule iffD2)
  moreover have "get_warning_level ''ERR'' (Some [1000, 2000]) = Inr 0"
    using warning_tiers [OF h, of "''ERR''", THEN conjunct2, THEN conjunct2, THEN conjunct1] f3
    by (rule iffD2)
  ultimately show ?thesis using h by simp
qed

subsection \<open>Value formatter\<close>

text \<open>
  Claim C5 says that the formatter never raises. It does for a value that parses to an
  infinity with the kind \<open>int\<close>: \<open>int\<close> of an infinite float raises OverflowError, and
  the formatter catches only ValueError and TypeError.
\<close>

theorem format_value_inf_int:
  "py_float ''inf'' = Inr PInf \<and> format_value float_str ''inf'' ''int'' suffix = Inl OverflowError"
  by (simp add: py_float_inf format_value_def py_int_def)

text \<open>
  Claim C10, as stated, fails at a value that parses to NaN: the kind \<open>int\<close> does not
  truncate it, \<open>int\<close> raises ValueError and the formatter returns the text unparsed.
\<close>

theorem nan_int_is_raw:
  "py_float ''nan'' = Inr NaN \<and> format_value (\<lambda>v. []) ''nan'' ''int'' [] = Inr ''nan''"
  by (simp add: py_float_nan format_value_def py_int_def)

text \<open>
  Claim C10, amended. For every value that parses as a finite float \<open>q\<close>, the kind \<open>int\<close>
  prints the integer \<open>t\<close> obtained by truncating towards zero (\<open>|t| \<le> |q|\<close> and
  \<open>|q - t| < 1\<close>), and the kind fixed-0 prints the sign and an integer \<open>r\<close> nearest to
  \<open>|q|\<close> (\<open>||q| - r| \<le> 1/2\<close>), each followed by the suffix.
\<close>

theorem int_truncates_fixed0_rounds:
  assumes "py_float v = Inr f" and "finite_value f = Some q"
  shows "\<exists>t r. format_value fs v ''int'' suffix = Inr (str_int t @ suffix)
      \<and> \<bar>of_int t :: rat\<bar> \<le> \<bar>q\<bar> \<and> \<bar>q - of_int t\<bar> < 1
      \<and> format_value fs v ''0f'' suffix = Inr ((if sign_bit f then ''-'' else []) @ str_nat r @ suffix)
      \<and> \<bar>\<bar>q\<bar> - of_nat r\<bar> \<le> 1 / 2"
proof -
  define t where "t = (if 0 \<le> q then \<lfloor>q\<rfloor> else \<lceil>q\<rceil>)"
  define r where "r = nat (round_half_even \<bar>q\<bar>)"
  have "0 \<le> round_half_even \<bar>q\<bar>" by (rule round_half_even_nonneg) simp
  then have "(of_nat r :: rat) = of_int (round_half_even \<bar>q\<bar>)"
    by (simp add: r_def)
  then have "\<bar>\<bar>q\<bar> - of_nat r\<bar> \<le> 1 / 2"
    using round_half_even_near [of "\<bar>q\<bar>"] by simp
  moreover have "\<bar>of_int t :: rat\<bar> \<le> \<bar>q\<bar>" "\<bar>q - of_int t\<bar> < 1"
    unfolding t_def by (rule truncate_near)+
  moreover note format_value_finite [OF assms, of fs suffix, folded t_def r_def]
  ultimately show ?thesis by blast
qed

theorem int_truncates_fixed0_rounds_witness:
  "py_float ''2.9'' = Inr (Fin (6530219459687219 / 2251799813685248))
   \<and> finite_value (Fin (6530219459687219 / 2251799813685248)) = Some (6530219459687219 / 2251799813685248)
   \<and> format_value (\<lambda>v. []) ''2.9'' ''int'' [] = Inr ''2''
   \<and> format_value (\<lambda>v. []) ''2.9'' ''0f'' [] = Inr ''3''
   \<and> format_value (\<lambda>v. []) ''55.7'' ''int'' ''%'' = Inr ''55%''
   \<and> format_value (\<lambda>v. []) ''55.7'' ''0f'' ''%'' = Inr ''56%''"
proof -
  let ?q = "6530219459687219 / 2251799813685248 :: rat"
  have h1: "py_float ''2.9'' = Inr (Fin ?q)" by (rule py_float_2_9)
  have h2: "finite_value (Fin ?q) = Some ?q" by (simp add: finite_value_def)
  from int_truncates_fixed0_rounds [OF h1 h2, of "\<lambda>v. []" "[]"] obtain t r where
    i: "format_value (\<lambda>v. []) ''2.9'' ''int'' [] = Inr (str_int t)"
    and t: "\<bar>of_int t :: rat\<bar> \<le> \<bar>?q\<bar>" "\<bar>?q - of_int t\<bar> < 1"
    and z: "format_value (\<lambda>v. []) ''2.9'' ''0f'' [] = Inr (str_nat r)"
    and r: "\<bar>\<bar>?q\<bar> - of_nat r\<bar> \<le> 1 / 2"
    by (auto simp: sign_bit_def)
  have "(of_int t :: rat) < 3" "(of_int t :: rat) > 1" using t by (simp_all add: abs_if split: if_splits)
  then have "t < 3" "t > 1" by linarith+
  then have "t = 2" by simp
  have "(of_nat r :: rat) < 4" "(of_nat r :: rat) > 2" using r by (simp_all add: abs_if split: if_splits)
  then have "r < 4" "r > 2" by linarith+
  then have "r = 3" by simp
  let ?p = "3919539050695885 / 70368744177664 :: rat"
  have k1: "py_float ''55.7'' = Inr (Fin ?p)" by (rule py_float_55_7)
  have k2: "finite_value (Fin ?p) = Some ?p" by (simp add: finite_value_def)
  from int_truncates_fixed0_rounds [OF k1 k2, of "\<lambda>v. []" "''%''"] obtain t' r' where
    i': "format_value (\<lambda>v. []) ''55.7'' ''int'' ''%'' = Inr (str_int t' @ ''%'')"
    and t': "\<bar>of_int t' :: rat\<bar> \<le> \<bar>?p\<bar>" "\<bar>?p - of_int t'\<bar> < 1"
    and z': "format_value (\<lambda>v. []) ''55.7'' ''0f'' ''%'' = Inr (str_nat r' @ ''%'')"
    and r': "\<bar>\<bar>?p\<bar> - of_nat r'\<bar> \<le> 1 / 2"
    by (auto simp: sign_bit_def)
  have "(of_int t' :: rat) < 56" "(of_int t' :: rat) > 54"
    using t' by (simp_all add: abs_if split: if_splits)
  then have "t' < 56" "t' > 54" by linarith+
  then have "t' = 55" by simp
  have "(of_nat r' :: rat) < 57" "(of_nat r' :: rat) > 55"
    using r' by (simp_all add: abs_if split: if_splits)
  then have "r' < 57" "r' > 55" by linarith+
  then have "r' = 56" by simp
  have "str_int 2 = ''2''" "str_nat 3 = ''3''" "str_int 55 = ''55''" "str_nat 56 = ''56''"
    by (simp_all add: str_int_def str_nat.simps digit_char_def)
  with i z i' z' \<open>t = 2\<close> \<open>r = 3\<close> \<open>t' = 55\<close> \<open>r' = 56\<close> h1 h2 show ?thesis by simp
qed

subsection \<open>Cell drawing\<close>

text \<open>
  Claim C8 says that drawing a cell changes no pixel outside the cell's rectangle, and
  that the solid fill of the danger state covers exactly the cell. The code fills the
  box from \<open>(x, y)\<close> to \<open>(x + w, y + h)\<close>, corners included, one pixel more to the right
  and below than the cell; the two borders in the same function end at \<open>x + w - 1\<close> and
  \<open>y + h - 1\<close>. For the first cell of the grid (row 0, column 0, 148 by 32) with a CO2
  value of 2500 on a white canvas, whatever the font and the icons, as long as the text
  leaves pixel \<open>(148, 0)\<close> alone: the call returns, and pixel \<open>(148, 0)\<close>, which lies in
  the neighbouring cell of column 1, has turned from white to black.
\<close>

theorem danger_fill_spills:
  assumes "\<forall>p s c im. pix (env_draw_text env p s c im) 148 0 = pix im 148 0"
  shows "\<exists>img'. draw_cell DISPLAY_CONFIG env (new_image 296 128 1)
             (GRID_CONFIG ! 0) [''co2'' \<mapsto> ''2500''] 148 32 False = Inr img'
      \<and> pix img' 148 0 = 0
      \<and> cell_row (GRID_CONFIG ! 0) = 0 \<and> cell_col (GRID_CONFIG ! 0) = 0
      \<and> \<not> (148 < (cell_col (GRID_CONFIG ! 0) + 1) * 148)"
proof -
  define img0 :: image where "img0 = new_image 296 128 1"
  define img2 where "img2 = img0\<lparr>pix := (\<lambda>x y.
      if x < iw img0 \<and> y < ih img0 \<and> 0 \<le> int x \<and> int x \<le> 148 \<and> 0 \<le> int y \<and> int y \<le> 32
      then 0 else pix img0 x y)\<rparr>"
  have fill: "rectangle_fill 0 0 148 32 0 img0 = Inr img2"
    by (simp add: rectangle_fill_def img2_def)
  have p2: "pix img2 148 0 = 0"
    by (simp add: img2_def img0_def new_image_def)
  define img4 where "img4 =
     (case env_load_icon env ''seedlings.png'' 24 True of
        None \<Rightarrow> img2
      | Some ic \<Rightarrow> paste ic 4 4 img2)"
  have p4: "pix img4 148 0 = 0"
    using p2 by (simp add: img4_def paste_def split: option.splits)
  have "draw_cell DISPLAY_CONFIG env img0 (GRID_CONFIG ! 0) [''co2'' \<mapsto> ''2500''] 148 32 False
      = Inr (env_draw_text env (36, 0) ''2500'' 1 img4)"
    by (simp add: draw_cell_def GRID_CONFIG_def DISPLAY_CONFIG_def co2_2500_danger co2_2500_text
        fill img4_def Let_def cong: option.case_cong)
  moreover have "pix (env_draw_text env (36, 0) ''2500'' 1 img4) 148 0 = 0"
    using assms p4 by simp
  ultimately show ?thesis
    by (simp add: img0_def GRID_CONFIG_def)
qed

theorem danger_fill_spills_witness:
  "(\<forall>p s c im. pix (env_draw_text
        \<lparr>env_load_icon = (\<lambda>n s i. None), env_draw_text = (\<lambda>p s c im. im), env_float_str = (\<lambda>v. [])\<rparr>
        p s c im) 148 0 = pix im 148 0) = True
   \<and> (\<exists>img'. draw_cell DISPLAY_CONFIG
         \<lparr>env_load_icon = (\<lambda>n s i. None), env_draw_text = (\<lambda>p s c im. im), env_float_str = (\<lambda>v. [])\<rparr>
         (new_image 296 128 1)
         (GRID_CONFIG ! 0) [''co2'' \<mapsto> ''2500''] 148 32 False = Inr img'
       \<and> pix img' 148 0 = 0 \<and> pix (new_image 296 128 1) 148 0 = 1)"
proof -
  let ?env = "\<lparr>env_load_icon = (\<lambda>n s i. None), env_draw_text = (\<lambda>p s c im. im),
    env_float_str = (\<lambda>v. [])\<rparr>"
  have h: "\<forall>p s c im. pix (env_draw_text ?env p s c im) 148 0 = pix im 148 0"
    by simp
  from danger_fill_spills [OF h] obtain img' where
    "draw_cell DISPLAY_CONFIG ?env (new_image 296 128 1)
       (GRID_CONFIG ! 0) [''co2'' \<mapsto> ''2500''] 148 32 False = Inr img'"
    "pix img' 148 0 = 0"
    by blast
  then show ?thesis
    by (intro conjI exI [of _ img']) (simp_all add: new_image_def)
qed

end
